theory Spec2Isabelle
  imports Main
begin

section \<open>Text, glyphs and the Python primitives used by check_alignment.py\<close>

text \<open>
  A Python \<open>str\<close> is a sequence of Unicode code points, and \<open>len\<close> counts code points.
  A character is therefore modelled by its code point (a natural number) and a string by
  the list of its code points. The box-drawing glyphs are written by their code points.
\<close>

type_synonym uchar = nat
type_synonym ustring = "nat list"

abbreviation (input) SPACE :: uchar where "SPACE \<equiv> 32"            \<comment> \<open>U+0020\<close>
abbreviation (input) HORIZ :: uchar where "HORIZ \<equiv> 9472"          \<comment> \<open>U+2500, horizontal bar\<close>
abbreviation (input) VERT :: uchar where "VERT \<equiv> 9474"            \<comment> \<open>U+2502, vertical bar\<close>
abbreviation (input) TOP_LEFT :: uchar where "TOP_LEFT \<equiv> 9484"    \<comment> \<open>U+250C\<close>
abbreviation (input) TOP_RIGHT :: uchar where "TOP_RIGHT \<equiv> 9488"  \<comment> \<open>U+2510\<close>
abbreviation (input) BOT_LEFT :: uchar where "BOT_LEFT \<equiv> 9492"    \<comment> \<open>U+2514\<close>
abbreviation (input) BOT_RIGHT :: uchar where "BOT_RIGHT \<equiv> 9496"  \<comment> \<open>U+2518\<close>
abbreviation (input) TEE_RIGHT :: uchar where "TEE_RIGHT \<equiv> 9500"  \<comment> \<open>U+251C\<close>
abbreviation (input) TEE_LEFT :: uchar where "TEE_LEFT \<equiv> 9508"    \<comment> \<open>U+2524\<close>
abbreviation (input) TEE_DOWN :: uchar where "TEE_DOWN \<equiv> 9516"    \<comment> \<open>U+252C\<close>
abbreviation (input) TEE_UP :: uchar where "TEE_UP \<equiv> 9524"        \<comment> \<open>U+2534\<close>
abbreviation (input) CROSS :: uchar where "CROSS \<equiv> 9532"          \<comment> \<open>U+253C\<close>
abbreviation (input) DBL_TOP_LEFT :: uchar where "DBL_TOP_LEFT \<equiv> 9556"  \<comment> \<open>U+2554\<close>
abbreviation (input) DBL_BOT_LEFT :: uchar where "DBL_BOT_LEFT \<equiv> 9562"  \<comment> \<open>U+255A\<close>
abbreviation (input) ARROW_UP :: uchar where "ARROW_UP \<equiv> 9650"        \<comment> \<open>U+25B2\<close>
abbreviation (input) ARROW_RIGHT :: uchar where "ARROW_RIGHT \<equiv> 9658"  \<comment> \<open>U+25BA\<close>
abbreviation (input) ARROW_DOWN :: uchar where "ARROW_DOWN \<equiv> 9660"    \<comment> \<open>U+25BC\<close>
abbreviation (input) ARROW_LEFT :: uchar where "ARROW_LEFT \<equiv> 9668"    \<comment> \<open>U+25C4\<close>

text \<open>The three module-level glyph sets (source lines 28 to 30).\<close>

definition BORDER_CHARS :: "uchar set" where
  "BORDER_CHARS = {VERT, TOP_LEFT, TOP_RIGHT, BOT_LEFT, BOT_RIGHT, TEE_RIGHT, TEE_LEFT,
                   TEE_DOWN, TEE_UP, CROSS, ARROW_DOWN, ARROW_UP, ARROW_LEFT, ARROW_RIGHT}"

definition LEFT_BORDER :: "uchar set" where
  "LEFT_BORDER = {VERT, TEE_RIGHT, TOP_LEFT, BOT_LEFT}"

definition RIGHT_BORDER :: "uchar set" where
  "RIGHT_BORDER = {VERT, TEE_LEFT, TOP_RIGHT, BOT_RIGHT}"

text \<open>
  \<open>str.isspace\<close> for one code point: the code points Python treats as whitespace, which
  are the ones \<open>lstrip()\<close> and \<open>rstrip()\<close> remove when called with no argument.
\<close>

definition isspace :: "uchar \<Rightarrow> bool" where
  "isspace c = ((9 \<le> c \<and> c \<le> 13) \<or> (28 \<le> c \<and> c \<le> 32) \<or> c = 133 \<or> c = 160 \<or> c = 5760
                \<or> (8192 \<le> c \<and> c \<le> 8202) \<or> c = 8232 \<or> c = 8233 \<or> c = 8239 \<or> c = 8287
                \<or> c = 12288)"

definition lstrip :: "ustring \<Rightarrow> ustring" where
  "lstrip s = dropWhile isspace s"

definition rstrip :: "ustring \<Rightarrow> ustring" where
  "rstrip s = rev (dropWhile isspace (rev s))"

text \<open>\<open>' ' * n\<close>: the empty string when \<open>n\<close> is zero or negative.\<close>

definition spaces :: "int \<Rightarrow> ustring" where
  "spaces n = replicate (nat n) SPACE"

text \<open>\<open>s[a:b]\<close> for non-negative bounds, and \<open>s[1:-1]\<close>.\<close>

definition py_slice :: "nat \<Rightarrow> nat \<Rightarrow> 'a list \<Rightarrow> 'a list" where
  "py_slice a b s = take (b - a) (drop a s)"

definition strip_ends :: "'a list \<Rightarrow> 'a list" where
  "strip_ends s = butlast (tl s)"

text \<open>The exceptions the code can raise.\<close>

datatype py_error = IndexError | ValueError

text \<open>
  \<open>xs[i]\<close> and \<open>xs[i] = v\<close> for a Python list and an integer index: a negative index
  counts from the end, and an index outside \<open>-len \<dots> len - 1\<close> raises IndexError.
\<close>

definition py_norm :: "'a list \<Rightarrow> int \<Rightarrow> nat option" where
  "py_norm xs i =
     (if 0 \<le> i \<and> i < int (length xs) then Some (nat i)
      else if i < 0 \<and> - int (length xs) \<le> i then Some (nat (int (length xs) + i))
      else None)"

definition py_index :: "'a list \<Rightarrow> int \<Rightarrow> py_error + 'a" where
  "py_index xs i = (case py_norm xs i of None \<Rightarrow> Inl IndexError | Some k \<Rightarrow> Inr (xs ! k))"

definition py_store :: "'a list \<Rightarrow> int \<Rightarrow> 'a \<Rightarrow> py_error + 'a list" where
  "py_store xs i v = (case py_norm xs i of None \<Rightarrow> Inl IndexError | Some k \<Rightarrow> Inr (xs[k := v]))"

text \<open>\<open>range(a, b)\<close> and \<open>range(a, b, -1)\<close> over the integers.\<close>

definition py_range :: "int \<Rightarrow> int \<Rightarrow> int list" where
  "py_range a b = [a..b - 1]"

definition py_range_down :: "int \<Rightarrow> int \<Rightarrow> int list" where
  "py_range_down a b = rev [b + 1..a]"

text \<open>
  \<open>(i for i, ch in enumerate(txt) if ch in S)\<close> and
  \<open>[(i, ch) for i, ch in enumerate(txt) if ch in S]\<close>.
\<close>

definition glyph_positions :: "uchar set \<Rightarrow> ustring \<Rightarrow> (nat \<times> uchar) list" where
  "glyph_positions S txt = filter (\<lambda>p. snd p \<in> S) (enumerate 0 txt)"

definition glyph_indices :: "uchar set \<Rightarrow> ustring \<Rightarrow> nat list" where
  "glyph_indices S txt = map fst (glyph_positions S txt)"

text \<open>\<open>max(it)\<close>, which raises ValueError on an empty iterable, and \<open>max(it, default=-1)\<close>.\<close>

definition py_max :: "nat list \<Rightarrow> py_error + nat" where
  "py_max xs = (case xs of [] \<Rightarrow> Inl ValueError | x # ys \<Rightarrow> Inr (fold max ys x))"

definition py_max_default :: "nat list \<Rightarrow> int" where
  "py_max_default xs = (case xs of [] \<Rightarrow> - 1 | x # ys \<Rightarrow> int (fold max ys x))"

section \<open>Boxes and the box scanner\<close>

text \<open>
  The dictionary built by \<open>find_boxes\<close>: the keys \<open>start\<close>, \<open>width\<close> and \<open>lines\<close> are
  set when the box is opened, the key \<open>end\<close> only when it is closed.
\<close>

record box =
  box_start :: int
  box_width :: nat
  box_lines :: "(int \<times> ustring) list"
  box_end :: "int option"

definition starts_top :: "ustring \<Rightarrow> bool" where
  "starts_top s = (case s of [] \<Rightarrow> False | c # _ \<Rightarrow> c = TOP_LEFT \<or> c = DBL_TOP_LEFT)"

definition starts_bottom :: "ustring \<Rightarrow> bool" where
  "starts_bottom s = (case s of [] \<Rightarrow> False | c # _ \<Rightarrow> c = BOT_LEFT \<or> c = DBL_BOT_LEFT)"

text \<open>
  One iteration of the loop of \<open>find_boxes\<close>. The state is the list \<open>boxes\<close> and
  \<open>current_box\<close>; the flag \<open>in_box\<close> of the source is true exactly when \<open>current_box\<close>
  is not \<open>None\<close>, so it is read off the option.
\<close>

definition find_boxes_step ::
  "int \<Rightarrow> ustring \<Rightarrow> box list \<times> box option \<Rightarrow> box list \<times> box option" where
  "find_boxes_step i line st =
     (let actual_line = i + 1; stripped = lstrip line in
      case st of
        (boxes, None) \<Rightarrow>
          if starts_top stripped
          then (boxes, Some \<lparr>box_start = actual_line, box_width = length line,
                             box_lines = [(actual_line, line)], box_end = None\<rparr>)
          else (boxes, None)
      | (boxes, Some cur) \<Rightarrow>
          if starts_bottom stripped
          then (boxes @ [cur\<lparr>box_lines := box_lines cur @ [(actual_line, line)],
                             box_end := Some actual_line\<rparr>], None)
          else (boxes, Some (cur\<lparr>box_lines := box_lines cur @ [(actual_line, line)]\<rparr>)))"

fun find_boxes_loop ::
  "ustring list \<Rightarrow> int list \<Rightarrow> box list \<times> box option \<Rightarrow> py_error + (box list \<times> box option)" where
  "find_boxes_loop lines [] st = Inr st"
| "find_boxes_loop lines (i # rest) st =
     (case py_index lines i of
        Inl e \<Rightarrow> Inl e
      | Inr line \<Rightarrow> find_boxes_loop lines rest (find_boxes_step i line st))"

definition find_boxes :: "ustring list \<Rightarrow> int \<Rightarrow> int \<Rightarrow> py_error + box list" where
  "find_boxes lines start_line end_line =
     (case find_boxes_loop lines
             (py_range (start_line - 1) (min end_line (int (length lines)))) ([], None) of
        Inl e \<Rightarrow> Inl e
      | Inr st \<Rightarrow> Inr (fst st))"

section \<open>Outer width: validator and fixer\<close>

type_synonym width_error = "int \<times> int \<times> int \<times> ustring"

text \<open>The width of one line as \<open>check_outer_width\<close> measures it (source lines 107 and 108).\<close>

definition line_width :: "ustring \<Rightarrow> int" where
  "line_width txt =
     (let r_idx = py_max_default (glyph_indices RIGHT_BORDER txt) in
      if r_idx \<noteq> - 1 then r_idx + 1 else int (length (rstrip txt)))"

definition expected_width :: "ustring \<Rightarrow> int" where
  "expected_width first_ln_txt =
     (let right_idx = py_max_default (glyph_indices RIGHT_BORDER first_ln_txt) in
      if right_idx = - 1 then int (length first_ln_txt) else right_idx + 1)"

definition check_outer_width :: "box \<Rightarrow> py_error + width_error list" where
  "check_outer_width b =
     (case box_lines b of
        [] \<Rightarrow> Inl IndexError
      | first # _ \<Rightarrow>
          (let expected = expected_width (snd first) in
           Inr (concat (map (\<lambda>(ln, txt).
                  if line_width txt \<noteq> expected then [(ln, line_width txt, expected, txt)] else [])
                (box_lines b)))))"

text \<open>
  The body of the loop of \<open>fix_outer_width\<close> for one line: \<open>None\<close> where the source
  executes \<open>continue\<close>, the rewritten line otherwise.
\<close>

definition fix_width_line :: "nat \<Rightarrow> ustring \<Rightarrow> ustring option" where
  "fix_width_line target_width txt =
     (let cur = length txt in
      if cur = target_width then None
      else
        let stripped = lstrip txt;
            leading_spaces = length txt - length stripped in
        if stripped = [] \<or> hd stripped \<notin> LEFT_BORDER then None
        else
          let last_char = (if rstrip stripped \<noteq> [] then [last (rstrip stripped)] else []) in
          if last_char = [] \<or> hd last_char \<notin> RIGHT_BORDER then None
          else
            let inner = strip_ends stripped;
                off = int target_width - int cur in
            if off > 0
            then Some (spaces (int leading_spaces) @ [hd stripped] @ inner @ spaces off @ last_char)
            else
              let inner_stripped = rstrip inner;
                  sp = int (length inner) - int (length inner_stripped);
                  new_spaces = max 0 (sp + off) in
              Some (spaces (int leading_spaces) @ [hd stripped] @ inner_stripped
                    @ spaces new_spaces @ last_char))"

text \<open>
  The fixers mutate the shared line buffer in place. A fixer is modelled as a function from
  the buffer to the buffer after the call, paired with the outcome: the number of fixes, or
  the exception raised. The buffer is returned in both cases, since the writes made before
  an exception stay in the caller's list.
\<close>

type_synonym fix_result = "ustring list \<times> (py_error + nat)"

fun fix_outer_width_loop ::
  "nat \<Rightarrow> (int \<times> ustring) list \<Rightarrow> ustring list \<Rightarrow> nat \<Rightarrow> fix_result" where
  "fix_outer_width_loop target [] lines fixes = (lines, Inr fixes)"
| "fix_outer_width_loop target ((ln, txt) # rest) lines fixes =
     (case fix_width_line target txt of
        None \<Rightarrow> fix_outer_width_loop target rest lines fixes
      | Some new_line \<Rightarrow>
          (case py_store lines (ln - 1) new_line of
             Inl e \<Rightarrow> (lines, Inl e)
           | Inr lines' \<Rightarrow> fix_outer_width_loop target rest lines' (fixes + 1)))"

definition fix_outer_width :: "ustring list \<Rightarrow> box \<Rightarrow> nat option \<Rightarrow> fix_result" where
  "fix_outer_width lines b target_width =
     (let target = (case target_width of None \<Rightarrow> box_width b | Some w \<Rightarrow> w) in
      fix_outer_width_loop target (box_lines b) lines 0)"

text \<open>
  Re-reading a box from the buffer, as \<open>main\<close> does between two fixers (source line 472):
  \<open>box['lines'] = [(ln, all_lines[ln - 1]) for ln, _ in box['lines']]\<close>.
\<close>

fun reread_lines :: "ustring list \<Rightarrow> (int \<times> ustring) list \<Rightarrow> py_error + (int \<times> ustring) list" where
  "reread_lines lines [] = Inr []"
| "reread_lines lines ((ln, old) # rest) =
     (case py_index lines (ln - 1) of
        Inl e \<Rightarrow> Inl e
      | Inr txt \<Rightarrow> (case reread_lines lines rest of
                     Inl e \<Rightarrow> Inl e
                   | Inr reread \<Rightarrow> Inr ((ln, txt) # reread)))"

definition reread_box :: "ustring list \<Rightarrow> box \<Rightarrow> py_error + box" where
  "reread_box lines b =
     (case reread_lines lines (box_lines b) of
        Inl e \<Rightarrow> Inl e
      | Inr ls \<Rightarrow> Inr (b\<lparr>box_lines := ls\<rparr>))"

section \<open>Inner groups and the inner-alignment validator\<close>

text \<open>The characters of the string literal of source line 128; the last two are v and ^.\<close>

definition VERT_MARKS :: "uchar list" where
  "VERT_MARKS = [VERT, ARROW_DOWN, ARROW_UP, ARROW_LEFT, ARROW_RIGHT, 118, 94]"

type_synonym group_state = "(int \<times> ustring) list list \<times> (int \<times> ustring) list \<times> bool"

text \<open>One iteration of the loop of \<open>find_inner_box_groups\<close>, on the state
  \<open>(groups, current_group, in_inner)\<close>.\<close>

definition group_step :: "int \<times> ustring \<Rightarrow> group_state \<Rightarrow> group_state" where
  "group_step entry st =
     (case (entry, st) of ((ln, txt), (groups, current_group, in_inner)) \<Rightarrow>
        let inner = (if txt \<noteq> [] \<and> hd txt \<in> LEFT_BORDER then tl txt else txt);
            has_top = (TOP_LEFT \<in> set inner);
            has_bottom = (BOT_LEFT \<in> set inner);
            has_vert = list_ex (\<lambda>c. c \<in> set inner) VERT_MARKS in
        if has_top then (groups, [(ln, txt)], True)
        else if has_bottom \<and> in_inner then (groups @ [current_group @ [(ln, txt)]], [], False)
        else if in_inner \<and> has_vert then (groups, current_group @ [(ln, txt)], in_inner)
        else (groups, current_group, in_inner))"

definition find_inner_box_groups :: "box \<Rightarrow> (int \<times> ustring) list list" where
  "find_inner_box_groups b =
     (let content = strip_ends (box_lines b) in
      if content = [] then [] else fst (fold group_step content ([], [], False)))"

definition get_border_positions :: "ustring \<Rightarrow> bool \<Rightarrow> (nat \<times> uchar) list" where
  "get_border_positions line inner_only =
     (if line = [] then []
      else
        let positions = glyph_positions BORDER_CHARS line in
        if inner_only \<and> length positions \<ge> 2 \<and> snd (hd positions) \<in> LEFT_BORDER
           \<and> snd (last positions) \<in> RIGHT_BORDER
        then strip_ends positions
        else positions)"

text \<open>An error record of \<open>check_inner_alignment\<close> and of \<open>check_floating_verticals\<close>:
  line, actual column, expected column, reference line, text.\<close>

type_synonym align_error = "int \<times> nat \<times> nat \<times> int \<times> ustring"

text \<open>The body of the inner loop of \<open>check_inner_alignment\<close> (source lines 173 to 183):
  the errors appended for one member line.\<close>

definition check_member :: "int \<Rightarrow> nat list \<Rightarrow> int \<times> ustring \<Rightarrow> align_error list" where
  "check_member ref_ln ref_cols entry =
     (case entry of (ln, txt) \<Rightarrow>
        let cur_cols = map fst (get_border_positions txt True) in
        if length cur_cols = length ref_cols
        then (case List.find (\<lambda>(rc, cc). rc \<noteq> cc) (zip ref_cols cur_cols) of
                None \<Rightarrow> []
              | Some (rc, cc) \<Rightarrow> [(ln, cc, rc, ref_ln, txt)])
        else if length cur_cols > 0 \<and> length ref_cols > 0
        then (if hd cur_cols \<noteq> hd ref_cols \<or> last cur_cols \<noteq> last ref_cols
              then [(ln, last cur_cols, last ref_cols, ref_ln, txt)]
              else [])
        else [])"

definition check_group :: "(int \<times> ustring) list \<Rightarrow> align_error list" where
  "check_group grp =
     (if length grp < 2 then []
      else (case grp of
              [] \<Rightarrow> []
            | (ref_ln, ref_txt) # members \<Rightarrow>
                concat (map (check_member ref_ln (map fst (get_border_positions ref_txt True)))
                            members)))"

definition check_inner_alignment :: "box \<Rightarrow> align_error list" where
  "check_inner_alignment b = concat (map check_group (find_inner_box_groups b))"

section \<open>Floating verticals: anchor search and validator\<close>

definition JUNCTIONS :: "uchar set" where
  "JUNCTIONS = {TEE_DOWN, TEE_UP, CROSS, TOP_LEFT, TOP_RIGHT, BOT_LEFT, BOT_RIGHT}"

definition FLOATING :: "uchar set" where
  "FLOATING = {VERT, ARROW_DOWN, ARROW_UP}"

text \<open>
  The inner loop \<open>for c in range(max(0, col - 3), min(len(line), col + 4))\<close>: the first
  column of the window whose character is in \<open>S\<close>. The column is a natural number, and
  the truncating subtraction \<open>col - 3\<close> is \<open>max(0, col - 3)\<close>.
\<close>

definition scan_window :: "uchar set \<Rightarrow> ustring \<Rightarrow> nat \<Rightarrow> nat option" where
  "scan_window S line col =
     List.find (\<lambda>c. line ! c \<in> S) [col - 3 ..< min (length line) (col + 4)]"

text \<open>The outer loop over the rows \<open>rs\<close>, returning at the first hit.\<close>

fun search_rows ::
  "uchar set \<Rightarrow> ustring list \<Rightarrow> int list \<Rightarrow> nat \<Rightarrow> py_error + (int \<times> nat) option" where
  "search_rows S lines [] col = Inr None"
| "search_rows S lines (r # rs) col =
     (case py_index lines r of
        Inl e \<Rightarrow> Inl e
      | Inr line \<Rightarrow>
          (case scan_window S line col of
             Some c \<Rightarrow> Inr (Some (r, c))
           | None \<Rightarrow> search_rows S lines rs col))"

definition up_rows :: "int \<Rightarrow> int list" where
  "up_rows ln_idx = py_range_down (ln_idx - 1) (max (- 1) (ln_idx - 15))"

definition down_rows :: "ustring list \<Rightarrow> int \<Rightarrow> int list" where
  "down_rows lines ln_idx = py_range (ln_idx + 1) (min (int (length lines)) (ln_idx + 15))"

definition neighbour_rows :: "ustring list \<Rightarrow> int \<Rightarrow> int list" where
  "neighbour_rows lines ln_idx =
     filter (\<lambda>r. 0 \<le> r \<and> r < int (length lines)) [ln_idx - 1, ln_idx + 1]"

text \<open>\<open>get_closest_anchor\<close>: \<open>Some (r, c)\<close> for \<open>return r, c\<close> and \<open>None\<close> for
  \<open>return None, None\<close>.\<close>

definition get_closest_anchor ::
  "ustring list \<Rightarrow> int \<Rightarrow> nat \<Rightarrow> py_error + (int \<times> nat) option" where
  "get_closest_anchor lines ln_idx col =
     (case search_rows JUNCTIONS lines (up_rows ln_idx) col of
        Inl e \<Rightarrow> Inl e
      | Inr (Some a) \<Rightarrow> Inr (Some a)
      | Inr None \<Rightarrow>
          (case search_rows JUNCTIONS lines (down_rows lines ln_idx) col of
             Inl e \<Rightarrow> Inl e
           | Inr (Some a) \<Rightarrow> Inr (Some a)
           | Inr None \<Rightarrow> search_rows FLOATING lines (neighbour_rows lines ln_idx) col))"

definition in_box_indices :: "box list \<Rightarrow> int list" where
  "in_box_indices boxes = concat (map (\<lambda>b. map (\<lambda>e. fst e - 1) (box_lines b)) boxes)"

text \<open>The loop over the characters of one line in \<open>check_floating_verticals\<close>.\<close>

fun floating_line_errors ::
  "ustring list \<Rightarrow> int \<Rightarrow> ustring \<Rightarrow> (nat \<times> uchar) list \<Rightarrow> py_error + align_error list" where
  "floating_line_errors lines i line [] = Inr []"
| "floating_line_errors lines i line ((c, ch) # rest) =
     (if ch \<in> FLOATING
      then (case get_closest_anchor lines i c of
              Inl e \<Rightarrow> Inl e
            | Inr anchor \<Rightarrow>
                (case floating_line_errors lines i line rest of
                   Inl e \<Rightarrow> Inl e
                 | Inr errs \<Rightarrow>
                     (case anchor of
                        None \<Rightarrow> Inr errs
                      | Some (anchor_r, anchor_c) \<Rightarrow>
                          if anchor_c \<noteq> c
                          then Inr ((i + 1, c, anchor_c, anchor_r + 1, line) # errs)
                          else Inr errs)))
      else floating_line_errors lines i line rest)"

fun check_floating_rows ::
  "ustring list \<Rightarrow> int list \<Rightarrow> int list \<Rightarrow> py_error + align_error list" where
  "check_floating_rows lines boxed [] = Inr []"
| "check_floating_rows lines boxed (i # rest) =
     (if i \<in> set boxed then check_floating_rows lines boxed rest
      else (case py_index lines i of
              Inl e \<Rightarrow> Inl e
            | Inr line \<Rightarrow>
                (case floating_line_errors lines i line (enumerate 0 line) of
                   Inl e \<Rightarrow> Inl e
                 | Inr errs \<Rightarrow>
                     (case check_floating_rows lines boxed rest of
                        Inl e \<Rightarrow> Inl e
                      | Inr more_errs \<Rightarrow> Inr (errs @ more_errs)))))"

definition check_floating_verticals ::
  "ustring list \<Rightarrow> box list \<Rightarrow> int \<Rightarrow> int \<Rightarrow> py_error + align_error list" where
  "check_floating_verticals lines boxes start_line end_line =
     check_floating_rows lines (in_box_indices boxes)
       (py_range (start_line - 1) (min end_line (int (length lines))))"

section \<open>The inner-alignment fixer\<close>

text \<open>
  The loop that cuts a line into segments (source lines 317 to 322): each pair of a current
  glyph and a reference glyph gives the reference column, the current glyph and the text
  between the previous glyph and this one. The result also carries the final \<open>prev_end\<close>.
\<close>

fun inner_segments ::
  "ustring \<Rightarrow> nat \<Rightarrow> ((nat \<times> uchar) \<times> (nat \<times> uchar)) list
     \<Rightarrow> (nat \<times> uchar \<times> ustring) list \<times> nat" where
  "inner_segments txt prev_end [] = ([], prev_end)"
| "inner_segments txt prev_end (((cur_p, cur_ch), (ref_p, ref_ch)) # rest) =
     (let content = py_slice prev_end cur_p txt;
          tail_result = inner_segments txt (cur_p + 1) rest in
      ((ref_p, cur_ch, content) # fst tail_result, snd tail_result))"

text \<open>
  The loop that rebuilds the line from its segments (source lines 326 to 337, and again
  lines 399 to 409): each segment's text is padded, or right-trimmed and padded, so that
  its glyph lands on the wanted column; \<open>''.join(result)\<close> is the concatenation.
\<close>

fun place_segments :: "nat \<Rightarrow> (nat \<times> uchar \<times> ustring) list \<Rightarrow> ustring" where
  "place_segments pos [] = []"
| "place_segments pos ((ref_p, ch, content) # rest) =
     (let needed = int ref_p - int pos;
          placed =
            (if needed > int (length content)
             then content @ spaces (needed - int (length content))
             else if needed < int (length content)
             then rstrip content @ spaces (max 0 (needed - int (length (rstrip content))))
             else content) in
      placed @ [ch] @ place_segments (ref_p + 1) rest)"

text \<open>The adjustment of the rebuilt line to the target width (source lines 340 to 351).
  \<open>max\<close> has no default here and raises ValueError when the rebuilt line has no
  right-border glyph.\<close>

definition fit_width :: "nat \<Rightarrow> ustring \<Rightarrow> py_error + ustring" where
  "fit_width target_width rebuilt =
     (if length rebuilt < target_width
      then (case py_max (glyph_indices RIGHT_BORDER rebuilt) of
              Inl e \<Rightarrow> Inl e
            | Inr last_border_idx \<Rightarrow>
                Inr (take last_border_idx rebuilt
                     @ spaces (int target_width - int (length rebuilt))
                     @ drop last_border_idx rebuilt))
      else if length rebuilt > target_width
      then (case py_max (glyph_indices RIGHT_BORDER rebuilt) of
              Inl e \<Rightarrow> Inl e
            | Inr last_border_idx \<Rightarrow>
                (let before_txt = rstrip (take last_border_idx rebuilt);
                     after_txt = drop last_border_idx rebuilt;
                     needed_spaces = int target_width - int (length before_txt)
                                     - int (length after_txt) in
                 Inr (before_txt @ spaces (max 0 needed_spaces) @ after_txt)))
      else Inr rebuilt)"

text \<open>
  The body of the inner loop of \<open>fix_inner_alignment\<close> for one member line, up to the
  write: \<open>None\<close> where the source executes \<open>continue\<close>, otherwise the rebuilt line or
  the exception raised while building it.
\<close>

definition realign_member ::
  "ustring \<Rightarrow> nat list \<Rightarrow> nat \<Rightarrow> ustring \<Rightarrow> (py_error + ustring) option" where
  "realign_member ref_txt ref_cols target_width txt =
     (let cur_cols = map fst (get_border_positions txt True) in
      if length cur_cols \<noteq> length ref_cols then None
      else if List.find (\<lambda>(rc, cc). rc \<noteq> cc) (zip ref_cols cur_cols) = None then None
      else
        let all_cur = glyph_positions BORDER_CHARS txt;
            all_ref_line = glyph_positions BORDER_CHARS ref_txt in
        if length all_cur \<noteq> length all_ref_line then None
        else
          let segs = inner_segments txt 0 (zip all_cur all_ref_line);
              trailing = drop (snd segs) txt;
              rebuilt = place_segments 0 (fst segs) @ trailing in
          Some (fit_width target_width rebuilt))"

fun fix_members ::
  "ustring \<Rightarrow> nat list \<Rightarrow> nat \<Rightarrow> (int \<times> ustring) list \<Rightarrow> ustring list \<Rightarrow> nat \<Rightarrow> fix_result" where
  "fix_members ref_txt ref_cols target [] lines fixes = (lines, Inr fixes)"
| "fix_members ref_txt ref_cols target ((ln, txt) # rest) lines fixes =
     (case realign_member ref_txt ref_cols target txt of
        None \<Rightarrow> fix_members ref_txt ref_cols target rest lines fixes
      | Some (Inl e) \<Rightarrow> (lines, Inl e)
      | Some (Inr rebuilt) \<Rightarrow>
          (case py_store lines (ln - 1) rebuilt of
             Inl e \<Rightarrow> (lines, Inl e)
           | Inr lines' \<Rightarrow> fix_members ref_txt ref_cols target rest lines' (fixes + 1)))"

fun fix_groups ::
  "nat \<Rightarrow> (int \<times> ustring) list list \<Rightarrow> ustring list \<Rightarrow> nat \<Rightarrow> fix_result" where
  "fix_groups target [] lines fixes = (lines, Inr fixes)"
| "fix_groups target (grp # rest) lines fixes =
     (if length grp < 2 then fix_groups target rest lines fixes
      else (case grp of
              [] \<Rightarrow> fix_groups target rest lines fixes
            | (ref_ln, ref_txt) # members \<Rightarrow>
                (let ref_cols = map fst (get_border_positions ref_txt True) in
                 if ref_cols = [] then fix_groups target rest lines fixes
                 else (case fix_members ref_txt ref_cols target members lines fixes of
                         (lines', Inl e) \<Rightarrow> (lines', Inl e)
                       | (lines', Inr fixes') \<Rightarrow> fix_groups target rest lines' fixes'))))"

definition fix_inner_alignment :: "ustring list \<Rightarrow> box \<Rightarrow> fix_result" where
  "fix_inner_alignment lines b =
     fix_groups (box_width b) (find_inner_box_groups b) lines 0"

section \<open>The floating-vertical fixer\<close>

text \<open>The list \<open>chars_to_move\<close> (source lines 373 to 378).\<close>

fun chars_to_move ::
  "ustring list \<Rightarrow> int \<Rightarrow> (nat \<times> uchar) list \<Rightarrow> py_error + (nat \<times> uchar \<times> nat) list" where
  "chars_to_move lines i [] = Inr []"
| "chars_to_move lines i ((c, ch) # rest) =
     (if ch \<in> FLOATING
      then (case get_closest_anchor lines i c of
              Inl e \<Rightarrow> Inl e
            | Inr anchor \<Rightarrow>
                (case chars_to_move lines i rest of
                   Inl e \<Rightarrow> Inl e
                 | Inr moves \<Rightarrow>
                     (case anchor of
                        None \<Rightarrow> Inr moves
                      | Some (anchor_r, anchor_c) \<Rightarrow>
                          if anchor_c \<noteq> c then Inr ((c, ch, anchor_c) # moves) else Inr moves)))
      else chars_to_move lines i rest)"

text \<open>The list \<open>targets\<close> (source lines 383 to 389).\<close>

fun floating_targets ::
  "ustring list \<Rightarrow> int \<Rightarrow> (nat \<times> uchar) list \<Rightarrow> py_error + (nat \<times> uchar) list" where
  "floating_targets lines i [] = Inr []"
| "floating_targets lines i ((p, ch) # rest) =
     (case get_closest_anchor lines i p of
        Inl e \<Rightarrow> Inl e
      | Inr anchor \<Rightarrow>
          (case floating_targets lines i rest of
             Inl e \<Rightarrow> Inl e
           | Inr targets \<Rightarrow>
               (case anchor of
                  None \<Rightarrow> Inr ((p, ch) # targets)
                | Some (anchor_r, anchor_c) \<Rightarrow> Inr ((anchor_c, ch) # targets))))"

text \<open>The segment loop of source lines 391 to 396: as \<open>inner_segments\<close>, but the glyph
  kept is the one of the target pair.\<close>

fun floating_segments ::
  "ustring \<Rightarrow> nat \<Rightarrow> ((nat \<times> uchar) \<times> (nat \<times> uchar)) list
     \<Rightarrow> (nat \<times> uchar \<times> ustring) list \<times> nat" where
  "floating_segments line prev_end [] = ([], prev_end)"
| "floating_segments line prev_end (((cur_p, cur_ch), (tgt_p, tgt_ch)) # rest) =
     (let content = py_slice prev_end cur_p line;
          tail_result = floating_segments line (cur_p + 1) rest in
      ((tgt_p, tgt_ch, content) # fst tail_result, snd tail_result))"

text \<open>The body of the loop of \<open>fix_floating_verticals\<close> for a line outside every box:
  \<open>None\<close> for \<open>continue\<close>, otherwise the rebuilt line.\<close>

definition realign_floating :: "ustring list \<Rightarrow> int \<Rightarrow> ustring \<Rightarrow> py_error + ustring option" where
  "realign_floating lines i line =
     (case chars_to_move lines i (enumerate 0 line) of
        Inl e \<Rightarrow> Inl e
      | Inr moves \<Rightarrow>
          if moves = [] then Inr None
          else
            let all_cur = glyph_positions FLOATING line in
            (case floating_targets lines i all_cur of
               Inl e \<Rightarrow> Inl e
             | Inr targets \<Rightarrow>
                 (let segs = floating_segments line 0 (zip all_cur targets);
                      trailing = drop (snd segs) line in
                  Inr (Some (place_segments 0 (fst segs) @ trailing)))))"

fun fix_floating_rows ::
  "int list \<Rightarrow> int list \<Rightarrow> ustring list \<Rightarrow> nat \<Rightarrow> fix_result" where
  "fix_floating_rows boxed [] lines fixes = (lines, Inr fixes)"
| "fix_floating_rows boxed (i # rest) lines fixes =
     (if i \<in> set boxed then fix_floating_rows boxed rest lines fixes
      else (case py_index lines i of
              Inl e \<Rightarrow> (lines, Inl e)
            | Inr line \<Rightarrow>
                (case realign_floating lines i line of
                   Inl e \<Rightarrow> (lines, Inl e)
                 | Inr None \<Rightarrow> fix_floating_rows boxed rest lines fixes
                 | Inr (Some rebuilt) \<Rightarrow>
                     (case py_store lines i rebuilt of
                        Inl e \<Rightarrow> (lines, Inl e)
                      | Inr lines' \<Rightarrow> fix_floating_rows boxed rest lines' (fixes + 1)))))"

definition fix_floating_verticals ::
  "ustring list \<Rightarrow> box list \<Rightarrow> int \<Rightarrow> int \<Rightarrow> fix_result" where
  "fix_floating_verticals lines boxes start_line end_line =
     fix_floating_rows (in_box_indices boxes)
       (py_range (start_line - 1) (min end_line (int (length lines)))) lines 0"

section \<open>Notions used to state the properties\<close>

text \<open>
  The border glyphs of a line as the line itself shows them: the first border glyph met
  from the left, the first met from the right, and the columns that hold a border glyph.
\<close>

definition first_border :: "ustring \<Rightarrow> uchar option" where
  "first_border line = List.find (\<lambda>c. c \<in> BORDER_CHARS) line"

definition last_border :: "ustring \<Rightarrow> uchar option" where
  "last_border line = List.find (\<lambda>c. c \<in> BORDER_CHARS) (rev line)"

definition border_columns :: "ustring \<Rightarrow> nat list" where
  "border_columns line = filter (\<lambda>i. line ! i \<in> BORDER_CHARS) [0..<length line]"

text \<open>A line carries an outer pair when it has at least two border glyphs, the first of
  them a left-border glyph and the last of them a right-border glyph.\<close>

definition outer_pair :: "ustring \<Rightarrow> bool" where
  "outer_pair line =
     (2 \<le> length (border_columns line)
      \<and> (case first_border line of None \<Rightarrow> False | Some c \<Rightarrow> c \<in> LEFT_BORDER)
      \<and> (case last_border line of None \<Rightarrow> False | Some c \<Rightarrow> c \<in> RIGHT_BORDER))"

text \<open>
  The lines of the buffer from index \<open>lo\<close> to index \<open>hi\<close>, each with its 1-based
  number; an open box and a closed box that the scanner has built from such a span.
\<close>

definition span_lines :: "ustring list \<Rightarrow> int \<Rightarrow> int \<Rightarrow> (int \<times> ustring) list" where
  "span_lines lines lo hi = map (\<lambda>i. (i + 1, lines ! nat i)) [lo..hi]"

definition open_span :: "ustring list \<Rightarrow> box \<Rightarrow> int \<Rightarrow> int \<Rightarrow> bool" where
  "open_span lines c lo hi =
     (0 \<le> lo \<and> lo \<le> hi \<and> hi < int (length lines)
      \<and> box_lines c = span_lines lines lo hi
      \<and> box_width c = length (lines ! nat lo)
      \<and> box_start c = lo + 1 \<and> box_end c = None
      \<and> starts_top (lstrip (lines ! nat lo)))"

definition closed_span :: "ustring list \<Rightarrow> box \<Rightarrow> int \<Rightarrow> int \<Rightarrow> bool" where
  "closed_span lines b lo hi =
     (0 \<le> lo \<and> lo < hi \<and> hi < int (length lines)
      \<and> box_lines b = span_lines lines lo hi
      \<and> box_width b = length (lines ! nat lo)
      \<and> box_start b = lo + 1 \<and> box_end b = Some (hi + 1)
      \<and> starts_top (lstrip (lines ! nat lo))
      \<and> starts_bottom (lstrip (lines ! nat hi)))"

text \<open>The loop invariant of \<open>find_boxes\<close> after the rows from \<open>a\<close> up to, not
  including, \<open>h\<close>.\<close>

definition scan_inv :: "ustring list \<Rightarrow> int \<Rightarrow> int \<Rightarrow> box list \<times> box option \<Rightarrow> bool" where
  "scan_inv lines a h st =
     ((\<forall>b \<in> set (fst st). \<exists>lo hi. a \<le> lo \<and> hi < h \<and> closed_span lines b lo hi)
      \<and> (case snd st of
            None \<Rightarrow> True
          | Some c \<Rightarrow> \<exists>lo. a \<le> lo \<and> lo < h \<and> open_span lines c lo (h - 1)))"

text \<open>
  A glyph of \<open>S\<close> at row \<open>r\<close>, column \<open>c\<close> of the buffer, inside the column window of
  the column \<open>col\<close>; such a junction glyph in the upward window of row \<open>i\<close> (rows
  \<open>i - 1\<close> down to \<open>i - 14\<close>), and in the downward window (rows \<open>i + 1\<close> to \<open>i + 14\<close>).
\<close>

definition window_hit :: "uchar set \<Rightarrow> ustring list \<Rightarrow> nat \<Rightarrow> int \<Rightarrow> nat \<Rightarrow> bool" where
  "window_hit S lines col r c =
     (0 \<le> r \<and> r < int (length lines) \<and> col - 3 \<le> c \<and> c \<le> col + 3
      \<and> c < length (lines ! nat r) \<and> lines ! nat r ! c \<in> S)"

definition up_hit :: "ustring list \<Rightarrow> int \<Rightarrow> nat \<Rightarrow> int \<Rightarrow> nat \<Rightarrow> bool" where
  "up_hit lines i col r c = (i - 14 \<le> r \<and> r \<le> i - 1 \<and> window_hit JUNCTIONS lines col r c)"

definition down_hit :: "ustring list \<Rightarrow> int \<Rightarrow> nat \<Rightarrow> int \<Rightarrow> nat \<Rightarrow> bool" where
  "down_hit lines i col r c = (i + 1 \<le> r \<and> r \<le> i + 14 \<and> window_hit JUNCTIONS lines col r c)"

text \<open>
  The border pattern of a line: optional leading whitespace, then a left-border glyph,
  interior content, and a right-border glyph as the last character. The slack of a line is
  the number of whitespace characters at the end of its interior, and a line fits a target
  width when it is no longer than the target plus its slack. \<open>rewritten\<close> is the text the
  width fixer leaves in the buffer for a box line.
\<close>

definition border_pattern :: "ustring \<Rightarrow> bool" where
  "border_pattern line =
     (2 \<le> length (lstrip line) \<and> hd (lstrip line) \<in> LEFT_BORDER \<and> last line \<in> RIGHT_BORDER)"

definition interior_slack :: "ustring \<Rightarrow> nat" where
  "interior_slack line =
     length (strip_ends (lstrip line)) - length (rstrip (strip_ends (lstrip line)))"

definition fits_width :: "nat \<Rightarrow> ustring \<Rightarrow> bool" where
  "fits_width target line = (length line \<le> target + interior_slack line)"

definition rewritten :: "nat \<Rightarrow> ustring \<Rightarrow> ustring" where
  "rewritten target line =
     (case fix_width_line target line of None \<Rightarrow> line | Some new_line \<Rightarrow> new_line)"

text \<open>
  The error record that the floating check appends for the glyph at row \<open>i\<close>, column
  \<open>c\<close> of the line \<open>line\<close>: there is one exactly when the anchor search, run on the
  whole buffer, returns an anchor at another column.
\<close>

definition reported :: "ustring list \<Rightarrow> int \<Rightarrow> ustring \<Rightarrow> nat \<Rightarrow> align_error \<Rightarrow> bool" where
  "reported lines i line c err =
     (\<exists>anchor_r anchor_c. get_closest_anchor lines i c = Inr (Some (anchor_r, anchor_c))
        \<and> anchor_c \<noteq> c \<and> err = (i + 1, c, anchor_c, anchor_r + 1, line))"

section \<open>Example diagrams\<close>

text \<open>Scenario A: a box of width 8 whose middle line is one column short.\<close>

definition scenario_A_top :: ustring where
  "scenario_A_top = [TOP_LEFT, HORIZ, HORIZ, HORIZ, HORIZ, HORIZ, HORIZ, TOP_RIGHT]"

definition scenario_A_mid :: ustring where
  "scenario_A_mid = [VERT, SPACE, 65, 66, SPACE, SPACE, VERT]"

definition scenario_A_bot :: ustring where
  "scenario_A_bot = [BOT_LEFT, HORIZ, HORIZ, HORIZ, HORIZ, HORIZ, HORIZ, BOT_RIGHT]"

definition scenario_A_fixed :: ustring where
  "scenario_A_fixed = [VERT, SPACE, 65, 66, SPACE, SPACE, SPACE, VERT]"

definition scenario_A :: "ustring list" where
  "scenario_A = [scenario_A_top, scenario_A_mid, scenario_A_bot]"

definition scenario_A_box :: box where
  "scenario_A_box =
     \<lparr>box_start = 1, box_width = 8,
      box_lines = [(1, scenario_A_top), (2, scenario_A_mid), (3, scenario_A_bot)],
      box_end = Some 3\<rparr>"

text \<open>A malformed diagram: an inner box drawn without the outer side borders, its
  bottom corner one column to the right of its top corner. The two inner lines are
  \<open>a\<close>, space, top-left corner and \<open>b\<close>, two spaces, bottom-left corner.\<close>

definition open_inner_top :: ustring where
  "open_inner_top = [97, SPACE, TOP_LEFT]"

definition open_inner_bot :: ustring where
  "open_inner_bot = [98, SPACE, SPACE, BOT_LEFT]"

definition open_inner :: "ustring list" where
  "open_inner = [scenario_A_top, open_inner_top, open_inner_bot, scenario_A_bot]"

definition open_inner_box :: box where
  "open_inner_box =
     \<lparr>box_start = 1, box_width = 8,
      box_lines = [(1, scenario_A_top), (2, open_inner_top), (3, open_inner_bot),
                   (4, scenario_A_bot)],
      box_end = Some 4\<rparr>"

text \<open>A box with a connector leaving its bottom border: the tee is at column 3 of the
  bottom border, the vertical bar and the arrow head below it stand at column 4.\<close>

definition stem_top :: ustring where
  "stem_top = [TOP_LEFT, HORIZ, HORIZ, HORIZ, HORIZ, HORIZ, TOP_RIGHT]"

definition stem_mid :: ustring where
  "stem_mid = [VERT, SPACE, SPACE, SPACE, SPACE, SPACE, VERT]"

definition stem_bot :: ustring where
  "stem_bot = [BOT_LEFT, HORIZ, HORIZ, TEE_DOWN, HORIZ, HORIZ, BOT_RIGHT]"

definition stem_bar :: ustring where
  "stem_bar = [SPACE, SPACE, SPACE, SPACE, VERT]"

definition stem_arrow :: ustring where
  "stem_arrow = [SPACE, SPACE, SPACE, SPACE, ARROW_DOWN]"

definition stem_diagram :: "ustring list" where
  "stem_diagram = [stem_top, stem_mid, stem_bot, stem_bar, stem_arrow]"

definition stem_box :: box where
  "stem_box =
     \<lparr>box_start = 1, box_width = 7,
      box_lines = [(1, stem_top), (2, stem_mid), (3, stem_bot)],
      box_end = Some 3\<rparr>"

text \<open>A line with text before its outer border: x, bar, top-left, top-right, bar.\<close>

definition lead_text_line :: ustring where
  "lead_text_line = [120, VERT, TOP_LEFT, TOP_RIGHT, VERT]"

text \<open>A closed box followed by a box that is opened and never closed.\<close>

definition unterminated :: "ustring list" where
  "unterminated = [scenario_A_top, scenario_A_mid, scenario_A_bot, scenario_A_top, scenario_A_mid]"

text \<open>A box of width 4 whose middle line ends with a blank after its right border, one
  whose middle line has content too long for the box, and one whose top line ends with a
  blank.\<close>

definition short_top :: ustring where
  "short_top = [TOP_LEFT, HORIZ, HORIZ, TOP_RIGHT]"

definition short_mid :: ustring where
  "short_mid = [VERT, SPACE, SPACE, VERT]"

definition short_bot :: ustring where
  "short_bot = [BOT_LEFT, HORIZ, HORIZ, BOT_RIGHT]"

definition padded_mid :: ustring where
  "padded_mid = [VERT, 97, VERT, SPACE]"

definition padded_diagram :: "ustring list" where
  "padded_diagram = [short_top, padded_mid, short_bot]"

definition padded_box :: box where
  "padded_box =
     \<lparr>box_start = 1, box_width = 4,
      box_lines = [(1, short_top), (2, padded_mid), (3, short_bot)], box_end = Some 3\<rparr>"

definition wide_mid :: ustring where
  "wide_mid = [VERT, 97, 98, 99, 100, VERT]"

definition wide_diagram :: "ustring list" where
  "wide_diagram = [short_top, wide_mid, short_bot]"

definition wide_box :: box where
  "wide_box =
     \<lparr>box_start = 1, box_width = 4,
      box_lines = [(1, short_top), (2, wide_mid), (3, short_bot)], box_end = Some 3\<rparr>"

definition blank_top :: ustring where
  "blank_top = [TOP_LEFT, HORIZ, HORIZ, TOP_RIGHT, SPACE]"

definition blank_diagram :: "ustring list" where
  "blank_diagram = [blank_top, short_mid, short_bot]"

definition blank_box :: box where
  "blank_box =
     \<lparr>box_start = 1, box_width = 5,
      box_lines = [(1, blank_top), (2, short_mid), (3, short_bot)], box_end = Some 3\<rparr>"

text \<open>A box of width 10 with an inner box: the reference line has its inner corners at
  columns 2 and 5, the member line below has its bars at columns 3 and 6.\<close>

definition nested_top :: ustring where
  "nested_top = [TOP_LEFT, HORIZ, HORIZ, HORIZ, HORIZ, HORIZ, HORIZ, HORIZ, HORIZ, TOP_RIGHT]"

definition nested_ref :: ustring where
  "nested_ref = [VERT, SPACE, TOP_LEFT, HORIZ, HORIZ, TOP_RIGHT, SPACE, SPACE, SPACE, VERT]"

definition nested_member :: ustring where
  "nested_member = [VERT, SPACE, SPACE, VERT, SPACE, SPACE, VERT, SPACE, SPACE, VERT]"

definition nested_close :: ustring where
  "nested_close = [VERT, SPACE, BOT_LEFT, HORIZ, HORIZ, BOT_RIGHT, SPACE, SPACE, SPACE, VERT]"

definition nested_bot :: ustring where
  "nested_bot = [BOT_LEFT, HORIZ, HORIZ, HORIZ, HORIZ, HORIZ, HORIZ, HORIZ, HORIZ, BOT_RIGHT]"

definition nested_diagram :: "ustring list" where
  "nested_diagram = [nested_top, nested_ref, nested_member, nested_close, nested_bot]"

definition nested_box :: box where
  "nested_box =
     \<lparr>box_start = 1, box_width = 10,
      box_lines = [(1, nested_top), (2, nested_ref), (3, nested_member), (4, nested_close),
                   (5, nested_bot)],
      box_end = Some 5\<rparr>"

text \<open>A connector that enters a box from above: arrow head and bar at column 4, the
  tee of the border below them at column 3.\<close>

definition above_diagram :: "ustring list" where
  "above_diagram = [stem_arrow, stem_bar, stem_bot]"

text \<open>A box of width 4 whose middle line is two columns too long and ends its interior
  with three blanks.\<close>

definition roomy_mid :: ustring where
  "roomy_mid = [VERT, 97, SPACE, SPACE, SPACE, VERT]"

definition roomy_diagram :: "ustring list" where
  "roomy_diagram = [short_top, roomy_mid, short_bot]"

definition roomy_box :: box where
  "roomy_box =
     \<lparr>box_start = 1, box_width = 4,
      box_lines = [(1, short_top), (2, roomy_mid), (3, short_bot)], box_end = Some 3\<rparr>"

text \<open>A connector that enters a box through the tee of its top border: the bar of line 1
  stands at column 4, the tee of line 2 at column 3.\<close>

definition entry_top :: ustring where
  "entry_top = [TOP_LEFT, HORIZ, HORIZ, TEE_UP, HORIZ, HORIZ, TOP_RIGHT]"

definition entry_bot :: ustring where
  "entry_bot = [BOT_LEFT, HORIZ, HORIZ, HORIZ, HORIZ, HORIZ, BOT_RIGHT]"

definition entry_diagram :: "ustring list" where
  "entry_diagram = [stem_bar, entry_top, stem_mid, entry_bot]"

definition entry_box :: box where
  "entry_box =
     \<lparr>box_start = 2, box_width = 7,
      box_lines = [(2, entry_top), (3, stem_mid), (4, entry_bot)], box_end = Some 4\<rparr>"

text \<open>A bar at column 0 of line 15 and a tee at column 3 of line 1, thirteen empty lines
  between them: the tee stands in the last row and the last column of the bar's upward
  window.\<close>

definition far_tee :: ustring where
  "far_tee = [SPACE, SPACE, SPACE, TEE_DOWN]"

definition far_diagram :: "ustring list" where
  "far_diagram = [far_tee, [], [], [], [], [], [], [], [], [], [], [], [], [], [VERT]]"

text \<open>A bar that stands under its tee already.\<close>

definition aligned_diagram :: "ustring list" where
  "aligned_diagram = [far_tee, [SPACE, SPACE, SPACE, VERT]]"

section \<open>Evaluation rules\<close>

lemma py_range_rec: "py_range a b = (if a < b then a # py_range (a + 1) b else [])"
  unfolding py_range_def by (simp add: upto.simps)

lemma py_range_down_rec:
  "py_range_down a b = (if b < a then a # py_range_down (a - 1) b else [])"
  unfolding py_range_down_def by (simp add: upto_rec2)

lemma spaces_rec: "spaces n = (if 0 < n then SPACE # spaces (n - 1) else [])"
proof (cases "0 < n")
  case True
  then have "nat n = Suc (nat (n - 1))" by simp
  then show ?thesis using True by (simp add: spaces_def)
next
  case False
  then show ?thesis by (simp add: spaces_def)
qed

lemmas glyph_sets = BORDER_CHARS_def LEFT_BORDER_def RIGHT_BORDER_def JUNCTIONS_def
  FLOATING_def VERT_MARKS_def

lemmas py_prims = py_range_rec py_range_down_rec py_index_def py_store_def py_norm_def
  py_max_def py_max_default_def py_slice_def strip_ends_def spaces_rec lstrip_def rstrip_def
  isspace_def glyph_indices_def glyph_positions_def enumerate_eq_zip Let_def

lemmas scan_eval = find_boxes_def find_boxes_step_def starts_top_def starts_bottom_def

lemmas width_eval = check_outer_width_def expected_width_def line_width_def
  fix_outer_width_def fix_width_line_def

lemmas inner_eval = find_inner_box_groups_def group_step_def get_border_positions_def
  check_inner_alignment_def check_group_def check_member_def fix_inner_alignment_def
  realign_member_def fit_width_def

lemmas float_eval = check_floating_verticals_def fix_floating_verticals_def
  get_closest_anchor_def up_rows_def down_rows_def neighbour_rows_def scan_window_def
  in_box_indices_def realign_floating_def

lemmas short_defs = short_top_def short_mid_def short_bot_def padded_mid_def padded_diagram_def
  padded_box_def wide_mid_def wide_diagram_def wide_box_def blank_top_def blank_diagram_def
  blank_box_def

lemmas nested_defs = nested_top_def nested_ref_def nested_member_def nested_close_def
  nested_bot_def nested_diagram_def nested_box_def

lemmas roomy_defs = roomy_mid_def roomy_diagram_def roomy_box_def short_top_def short_bot_def

lemmas entry_defs = entry_top_def entry_bot_def entry_diagram_def entry_box_def stem_bar_def
  stem_mid_def

lemmas scenario_A_defs = scenario_A_def scenario_A_box_def scenario_A_top_def
  scenario_A_mid_def scenario_A_bot_def scenario_A_fixed_def

lemmas stem_defs = stem_diagram_def stem_box_def stem_top_def stem_mid_def stem_bot_def
  stem_bar_def stem_arrow_def

lemmas open_inner_defs = open_inner_def open_inner_box_def open_inner_top_def
  open_inner_bot_def scenario_A_top_def scenario_A_bot_def

section \<open>Scenario A: the width check and the width fix\<close>

lemma scenario_A_scan: "find_boxes scenario_A 1 3 = Inr [scenario_A_box]"
  by (simp add: scenario_A_defs scan_eval py_prims)

lemma scenario_A_check: "check_outer_width scenario_A_box = Inr [(2, 7, 8, scenario_A_mid)]"
  by (simp add: scenario_A_defs width_eval py_prims glyph_sets)

lemma scenario_A_fix:
  "fix_outer_width scenario_A scenario_A_box None
     = ([scenario_A_top, scenario_A_fixed, scenario_A_bot], Inr 1)"
  by (simp add: scenario_A_defs width_eval py_prims glyph_sets)

text \<open>
  Claim C2 as stated: on the three lines of scenario A, scanned as one box, the width
  check reports line 2 with actual width 8 and expected width 9. It does not: the
  top line has 8 characters and the middle line 7.
\<close>

theorem scenario_A_widths_not_8_9:
  "find_boxes scenario_A 1 3 = Inr [scenario_A_box]
   \<and> length scenario_A_top = 8 \<and> length scenario_A_mid = 7
   \<and> check_outer_width scenario_A_box \<noteq> Inr [(2, 8, 9, scenario_A_mid)]"
  using scenario_A_scan scenario_A_check
  by (simp add: scenario_A_top_def scenario_A_mid_def)

text \<open>
  Claim C2, amended: on the three lines of scenario A, scanned as one box, the width check
  reports exactly one error, on line 2, with actual width 7 and expected width 8 (signed
  difference -1); the width fix rewrites line 2 to the bar, space, A, B, three spaces, bar,
  a string of length 8, makes one fix, and leaves lines 1 and 3 unchanged.
\<close>

theorem scenario_A_width_7_8:
  "find_boxes scenario_A 1 3 = Inr [scenario_A_box]
   \<and> check_outer_width scenario_A_box = Inr [(2, 7, 8, scenario_A_mid)]
   \<and> (7::int) - 8 = - 1
   \<and> fix_outer_width scenario_A scenario_A_box None
       = ([scenario_A_top, scenario_A_fixed, scenario_A_bot], Inr 1)
   \<and> scenario_A_fixed = [VERT, SPACE, 65, 66, SPACE, SPACE, SPACE, VERT]
   \<and> length scenario_A_fixed = 8"
  using scenario_A_scan scenario_A_check scenario_A_fix
  by (simp add: scenario_A_fixed_def)

section \<open>A malformed diagram on which the inner-alignment fixer raises\<close>

lemma open_inner_scan: "find_boxes open_inner 1 4 = Inr [open_inner_box]"
  by (simp add: open_inner_defs scan_eval py_prims)

lemma open_inner_groups:
  "find_inner_box_groups open_inner_box = [[(2, open_inner_top), (3, open_inner_bot)]]"
  by (simp add: open_inner_defs inner_eval py_prims glyph_sets)

lemma open_inner_check:
  "check_inner_alignment open_inner_box = [(3, 3, 2, 2, open_inner_bot)]"
  unfolding check_inner_alignment_def open_inner_groups
  by (simp add: open_inner_defs inner_eval py_prims glyph_sets)

lemma open_inner_fix:
  "fix_inner_alignment open_inner open_inner_box = (open_inner, Inl ValueError)"
  unfolding fix_inner_alignment_def open_inner_groups
  by (simp add: open_inner_defs inner_eval py_prims glyph_sets)

text \<open>
  Claim C3 at a failing input: the four-line diagram \<open>open_inner\<close> scans as one box,
  the inner-alignment check reports its third line as an ordinary error record, and the
  inner-alignment fixer, called on that box, raises ValueError (the \<open>max\<close> of source
  line 341 runs over an empty sequence) instead of skipping the line.
\<close>

theorem fix_inner_alignment_raises:
  "find_boxes open_inner 1 4 = Inr [open_inner_box]
   \<and> check_inner_alignment open_inner_box = [(3, 3, 2, 2, open_inner_bot)]
   \<and> fix_inner_alignment open_inner open_inner_box = (open_inner, Inl ValueError)"
  using open_inner_scan open_inner_check open_inner_fix by simp

section \<open>The fixers rewrite lines in place\<close>

lemma py_store_length: "py_store xs i v = Inr ys \<Longrightarrow> length ys = length xs"
  by (auto simp: py_store_def split: option.splits)

lemma py_norm_length_cong: "length ys = length xs \<Longrightarrow> py_norm ys i = py_norm xs i"
  by (simp add: py_norm_def)

lemma py_store_other:
  "py_store xs i v = Inr ys \<Longrightarrow> py_norm xs i \<noteq> Some k \<Longrightarrow> ys ! k = xs ! k"
  by (auto simp: py_store_def split: option.splits)

lemma fix_outer_width_loop_length:
  "length (fst (fix_outer_width_loop t ls lines n)) = length lines"
  by (induction ls arbitrary: lines n)
     (auto split: option.splits sum.splits dest: py_store_length)

lemma fix_outer_width_loop_frame:
  "Some k \<notin> (\<lambda>e. py_norm lines (fst e - 1)) ` set ls
   \<Longrightarrow> fst (fix_outer_width_loop t ls lines n) ! k = lines ! k"
proof (induction ls arbitrary: lines n)
  case Nil
  then show ?case by simp
next
  case (Cons e ls)
  obtain ln body where e: "e = (ln, body)" by (cases e)
  have this_row: "py_norm lines (ln - 1) \<noteq> Some k" using Cons.prems e by force
  have rest: "Some k \<notin> (\<lambda>e. py_norm lines (fst e - 1)) ` set ls" using Cons.prems by auto
  show ?case
  proof (cases "fix_width_line t body")
    case None
    then show ?thesis using Cons.IH[OF rest] e by simp
  next
    case (Some new_line)
    show ?thesis
    proof (cases "py_store lines (ln - 1) new_line")
      case (Inl err)
      then show ?thesis using Some e by simp
    next
      case (Inr lines')
      have len: "length lines' = length lines" using Inr by (rule py_store_length)
      have "Some k \<notin> (\<lambda>e. py_norm lines' (fst e - 1)) ` set ls"
        using rest by (simp add: py_norm_length_cong[OF len])
      then have "fst (fix_outer_width_loop t ls lines' (n + 1)) ! k = lines' ! k"
        by (rule Cons.IH)
      moreover have "lines' ! k = lines ! k" using Inr this_row by (rule py_store_other)
      ultimately show ?thesis using Some Inr e by simp
    qed
  qed
qed

lemma fix_members_length:
  "length (fst (fix_members rt rc t ms lines n)) = length lines"
  by (induction ms arbitrary: lines n)
     (auto split: option.splits sum.splits dest: py_store_length)

lemma fix_members_frame:
  "Some k \<notin> (\<lambda>e. py_norm lines (fst e - 1)) ` set ms
   \<Longrightarrow> fst (fix_members rt rc t ms lines n) ! k = lines ! k"
proof (induction ms arbitrary: lines n)
  case Nil
  then show ?case by simp
next
  case (Cons e ms)
  obtain ln body where e: "e = (ln, body)" by (cases e)
  have this_row: "py_norm lines (ln - 1) \<noteq> Some k" using Cons.prems e by force
  have rest: "Some k \<notin> (\<lambda>e. py_norm lines (fst e - 1)) ` set ms" using Cons.prems by auto
  show ?case
  proof (cases "realign_member rt rc t body")
    case None
    then show ?thesis using Cons.IH[OF rest] e by simp
  next
    case (Some outcome)
    show ?thesis
    proof (cases outcome)
      case (Inl err)
      then show ?thesis using Some e by simp
    next
      case (Inr rebuilt)
      show ?thesis
      proof (cases "py_store lines (ln - 1) rebuilt")
        case (Inl err)
        then show ?thesis using Some Inr e by simp
      next
        case store: (Inr lines')
        have len: "length lines' = length lines" using store by (rule py_store_length)
        have "Some k \<notin> (\<lambda>e. py_norm lines' (fst e - 1)) ` set ms"
          using rest by (simp add: py_norm_length_cong[OF len])
        then have "fst (fix_members rt rc t ms lines' (n + 1)) ! k = lines' ! k"
          by (rule Cons.IH)
        moreover have "lines' ! k = lines ! k" using store this_row by (rule py_store_other)
        ultimately show ?thesis using Some Inr store e by simp
      qed
    qed
  qed
qed

lemma fix_groups_length:
  "length (fst (fix_groups t gs lines n)) = length lines"
proof (induction gs arbitrary: lines n)
  case Nil
  then show ?case by simp
next
  case (Cons g gs)
  show ?case
  proof (cases g)
    case Nil
    then show ?thesis using Cons by simp
  next
    case (Cons m ms)
    obtain ref_ln ref_txt where m: "m = (ref_ln, ref_txt)" by (cases m)
    let ?rc = "map fst (get_border_positions ref_txt True)"
    obtain l' r where fm: "fix_members ref_txt ?rc t ms lines n = (l', r)"
      by (cases "fix_members ref_txt ?rc t ms lines n")
    have "length l' = length lines"
      using fix_members_length[of ref_txt ?rc t ms lines n] fm by simp
    then show ?thesis using Cons.IH Cons m fm
      by (cases r) (auto simp: Let_def)
  qed
qed

lemma fix_groups_frame:
  "Some k \<notin> (\<lambda>e. py_norm lines (fst e - 1)) ` set (concat gs)
   \<Longrightarrow> fst (fix_groups t gs lines n) ! k = lines ! k"
proof (induction gs arbitrary: lines n)
  case Nil
  then show ?case by simp
next
  case (Cons g gs)
  have rest: "Some k \<notin> (\<lambda>e. py_norm lines (fst e - 1)) ` set (concat gs)"
    using Cons.prems by auto
  show ?case
  proof (cases g)
    case Nil
    then show ?thesis using Cons.IH[OF rest] by simp
  next
    case g: (Cons m ms)
    obtain ref_ln ref_txt where m: "m = (ref_ln, ref_txt)" by (cases m)
    let ?rc = "map fst (get_border_positions ref_txt True)"
    obtain l' r where fm: "fix_members ref_txt ?rc t ms lines n = (l', r)"
      by (cases "fix_members ref_txt ?rc t ms lines n")
    have len: "length l' = length lines"
      using fix_members_length[of ref_txt ?rc t ms lines n] fm by simp
    have "Some k \<notin> (\<lambda>e. py_norm lines (fst e - 1)) ` set ms"
      using Cons.prems g by auto
    then have same: "l' ! k = lines ! k"
      using fix_members_frame[of k lines ms ref_txt ?rc t n] fm by simp
    have rest': "Some k \<notin> (\<lambda>e. py_norm l' (fst e - 1)) ` set (concat gs)"
      using rest by (simp add: py_norm_length_cong[OF len])
    show ?thesis
    proof (cases "length g < 2 \<or> ?rc = []")
      case True
      then show ?thesis using Cons.IH[OF rest] g m by (auto simp: Let_def)
    next
      case False
      then show ?thesis using Cons.IH[OF rest'] g m fm same
        by (cases r) (auto simp: Let_def)
    qed
  qed
qed

lemma fix_floating_rows_length:
  "length (fst (fix_floating_rows boxed rows lines n)) = length lines"
  by (induction rows arbitrary: lines n)
     (auto split: option.splits sum.splits dest: py_store_length)

lemma fix_floating_rows_frame:
  "Some k \<notin> py_norm lines ` (set rows - set boxed)
   \<Longrightarrow> fst (fix_floating_rows boxed rows lines n) ! k = lines ! k"
proof (induction rows arbitrary: lines n)
  case Nil
  then show ?case by simp
next
  case (Cons i rest)
  have tl: "Some k \<notin> py_norm lines ` (set rest - set boxed)" using Cons.prems by auto
  show ?case
  proof (cases "i \<in> set boxed")
    case True
    then show ?thesis using Cons.IH[OF tl] by simp
  next
    case False
    then have this_row: "py_norm lines i \<noteq> Some k" using Cons.prems by force
    have step: "fst (fix_floating_rows boxed rest lines' (n + 1)) ! k = lines ! k"
      if "py_store lines i rebuilt = Inr lines'" for rebuilt lines'
    proof -
      have len: "length lines' = length lines" using that by (rule py_store_length)
      have "Some k \<notin> py_norm lines' ` (set rest - set boxed)"
        using tl by (simp add: py_norm_length_cong[OF len])
      then have "fst (fix_floating_rows boxed rest lines' (n + 1)) ! k = lines' ! k"
        by (rule Cons.IH)
      moreover have "lines' ! k = lines ! k" using that this_row by (rule py_store_other)
      ultimately show ?thesis by simp
    qed
    show ?thesis using False Cons.IH[OF tl] step
      by (auto split: sum.splits option.splits)
  qed
qed

lemma group_step_subset:
  assumes "group_step e (gs, cur, f) = (gs', cur', f')"
    and "set (concat gs) \<union> set cur \<subseteq> A" and "e \<in> A"
  shows "set (concat gs') \<union> set cur' \<subseteq> A"
  using assms by (cases e) (auto simp: group_step_def Let_def split: if_splits; blast)

lemma fold_group_step_subset:
  "set (concat (fst st)) \<union> set (fst (snd st)) \<subseteq> A \<Longrightarrow> set es \<subseteq> A
   \<Longrightarrow> set (concat (fst (fold group_step es st))) \<subseteq> A"
proof (induction es arbitrary: st)
  case Nil
  then show ?case by simp
next
  case (Cons e es)
  obtain gs cur f where st: "st = (gs, cur, f)" by (cases st)
  obtain gs' cur' f' where st': "group_step e st = (gs', cur', f')"
    by (cases "group_step e st")
  have "set (concat gs') \<union> set cur' \<subseteq> A"
    using group_step_subset[of e gs cur f gs' cur' f' A] st st' Cons.prems by simp
  then show ?case using Cons.IH[of "group_step e st"] st' Cons.prems by simp
qed

lemma set_strip_ends: "set (strip_ends xs) \<subseteq> set xs"
  unfolding strip_ends_def by (cases xs) (auto dest: in_set_butlastD)

lemma groups_in_box: "set (concat (find_inner_box_groups b)) \<subseteq> set (box_lines b)"
proof -
  have "set (concat (fst (fold group_step (strip_ends (box_lines b)) ([], [], False))))
        \<subseteq> set (strip_ends (box_lines b))"
    by (rule fold_group_step_subset) simp_all
  then show ?thesis using set_strip_ends[of "box_lines b"]
    by (auto simp: find_inner_box_groups_def Let_def)
qed

text \<open>
  Claim C8: after a call of any of the three fixers, whether it returns or raises, the
  buffer has the same number of lines; and the lines keep their places, since a fixer only
  overwrites entries: a position \<open>k\<close> that is not the buffer index of a line of the box
  (for the width and inner-alignment fixers), or of a scanned row outside every box (for
  the floating fixer, at position \<open>j\<close>), holds the same text as before.
\<close>

theorem fixers_keep_line_count:
  "(length (fst (fix_outer_width lines b target_width)) = length lines
    \<and> length (fst (fix_inner_alignment lines b)) = length lines
    \<and> length (fst (fix_floating_verticals lines boxes start_line end_line)) = length lines)
   \<and> (Some k \<notin> (\<lambda>e. py_norm lines (fst e - 1)) ` set (box_lines b)
        \<longrightarrow> fst (fix_outer_width lines b target_width) ! k = lines ! k
            \<and> fst (fix_inner_alignment lines b) ! k = lines ! k)
   \<and> (Some j \<notin> py_norm lines
                  ` (set (py_range (start_line - 1) (min end_line (int (length lines))))
                     - set (in_box_indices boxes))
        \<longrightarrow> fst (fix_floating_verticals lines boxes start_line end_line) ! j = lines ! j)"
proof -
  have lens:
    "length (fst (fix_outer_width lines b target_width)) = length lines
     \<and> length (fst (fix_inner_alignment lines b)) = length lines
     \<and> length (fst (fix_floating_verticals lines boxes start_line end_line)) = length lines"
    by (simp add: fix_outer_width_def fix_inner_alignment_def fix_floating_verticals_def
        fix_outer_width_loop_length fix_groups_length fix_floating_rows_length)
  have box_frame:
    "fst (fix_outer_width lines b target_width) ! k = lines ! k
     \<and> fst (fix_inner_alignment lines b) ! k = lines ! k"
    if untouched: "Some k \<notin> (\<lambda>e. py_norm lines (fst e - 1)) ` set (box_lines b)"
  proof -
    have "Some k \<notin> (\<lambda>e. py_norm lines (fst e - 1)) ` set (concat (find_inner_box_groups b))"
      using untouched groups_in_box[of b] by blast
    then have "fst (fix_inner_alignment lines b) ! k = lines ! k"
      unfolding fix_inner_alignment_def by (rule fix_groups_frame)
    moreover have "fst (fix_outer_width lines b target_width) ! k = lines ! k"
      unfolding fix_outer_width_def Let_def using untouched by (rule fix_outer_width_loop_frame)
    ultimately show ?thesis by simp
  qed
  have float_frame:
    "fst (fix_floating_verticals lines boxes start_line end_line) ! j = lines ! j"
    if "Some j \<notin> py_norm lines
                  ` (set (py_range (start_line - 1) (min end_line (int (length lines))))
                     - set (in_box_indices boxes))"
    unfolding fix_floating_verticals_def using that by (rule fix_floating_rows_frame)
  show ?thesis using lens box_frame float_frame by blast
qed

lemma stem_scan: "find_boxes stem_diagram 1 5 = Inr [stem_box]"
  by (simp add: stem_defs scan_eval py_prims)

theorem fixers_keep_line_count_witness:
  "length (fst (fix_outer_width stem_diagram stem_box None)) = 5
   \<and> length (fst (fix_inner_alignment stem_diagram stem_box)) = 5
   \<and> length (fst (fix_floating_verticals stem_diagram [stem_box] 1 5)) = 5
   \<and> fst (fix_outer_width stem_diagram stem_box None) ! 3 = stem_bar
   \<and> fst (fix_inner_alignment stem_diagram stem_box) ! 3 = stem_bar
   \<and> fst (fix_floating_verticals stem_diagram [stem_box] 1 5) ! 0 = stem_top"
proof -
  have k: "Some 3 \<notin> (\<lambda>e. py_norm stem_diagram (fst e - 1)) ` set (box_lines stem_box)"
    by (simp add: stem_diagram_def stem_box_def py_norm_def)
  have j: "Some 0 \<notin> py_norm stem_diagram
             ` (set (py_range (1 - 1) (min 5 (int (length stem_diagram))))
                - set (in_box_indices [stem_box]))"
    by (simp add: stem_diagram_def stem_box_def py_norm_def in_box_indices_def py_range_rec)
  show ?thesis
    using k j fixers_keep_line_count[of stem_diagram stem_box None "[stem_box]" 1 5 3 0]
    by (simp add: stem_diagram_def)
qed

section \<open>Which border columns count as inner ones\<close>

lemma enumerate_filter_fst:
  "map fst (filter (\<lambda>p. snd p \<in> S) (enumerate 0 xs))
     = filter (\<lambda>i. xs ! i \<in> S) [0..<length xs]"
proof (induction xs rule: rev_induct)
  case Nil
  then show ?case by simp
next
  case (snoc x xs)
  have "filter (\<lambda>i. (xs @ [x]) ! i \<in> S) [0..<length xs]
        = filter (\<lambda>i. xs ! i \<in> S) [0..<length xs]"
    by (rule filter_cong) (simp_all add: nth_append)
  then show ?case using snoc.IH by (simp add: enumerate_append_eq)
qed

lemma glyph_indices_filter:
  "glyph_indices S line = filter (\<lambda>i. line ! i \<in> S) [0..<length line]"
  unfolding glyph_indices_def glyph_positions_def
  by (rule enumerate_filter_fst)

lemma enumerate_filter_snd:
  "map snd (filter (\<lambda>p. snd p \<in> S) (enumerate n xs)) = filter (\<lambda>c. c \<in> S) xs"
  by (induction xs arbitrary: n) auto

lemma glyph_positions_snd: "map snd (glyph_positions S txt) = filter (\<lambda>c. c \<in> S) txt"
  unfolding glyph_positions_def by (rule enumerate_filter_snd)

lemma find_filter: "List.find P xs = (case filter P xs of [] \<Rightarrow> None | x # _ \<Rightarrow> Some x)"
  by (induction xs) auto

lemma first_border_hd:
  "glyph_positions BORDER_CHARS line \<noteq> []
   \<Longrightarrow> first_border line = Some (snd (hd (glyph_positions BORDER_CHARS line)))"
proof -
  assume ne: "glyph_positions BORDER_CHARS line \<noteq> []"
  have "filter (\<lambda>c. c \<in> BORDER_CHARS) line = map snd (glyph_positions BORDER_CHARS line)"
    by (simp add: glyph_positions_snd)
  then show ?thesis using ne
    by (cases "glyph_positions BORDER_CHARS line") (auto simp: first_border_def find_filter)
qed

lemma last_border_last:
  "glyph_positions BORDER_CHARS line \<noteq> []
   \<Longrightarrow> last_border line = Some (snd (last (glyph_positions BORDER_CHARS line)))"
proof -
  assume ne: "glyph_positions BORDER_CHARS line \<noteq> []"
  have "filter (\<lambda>c. c \<in> BORDER_CHARS) (rev line)
        = rev (map snd (glyph_positions BORDER_CHARS line))"
    by (simp add: glyph_positions_snd rev_filter)
  moreover have "hd (rev (map snd (glyph_positions BORDER_CHARS line)))
        = snd (last (glyph_positions BORDER_CHARS line))"
    using ne by (simp add: hd_rev last_map)
  ultimately show ?thesis using ne
    by (cases "rev (map snd (glyph_positions BORDER_CHARS line))")
       (auto simp: last_border_def find_filter)
qed

lemma border_columns_positions:
  "border_columns line = map fst (glyph_positions BORDER_CHARS line)"
  using glyph_indices_filter[of BORDER_CHARS line]
  by (simp add: border_columns_def glyph_indices_def)

text \<open>
  Claim C4 as stated: the first and last entries are dropped exactly when the line begins
  with a left-border glyph and ends with a right-border glyph. Both directions fail. The
  line x, bar, top-left, top-right, bar begins with the letter x, and its column list
  \<open>[1, 2, 3, 4]\<close> is cut to \<open>[2, 3]\<close>. The line made of one bar begins with a
  left-border glyph and ends with a right-border glyph, and its list \<open>[0]\<close> is kept whole.
\<close>

theorem drop_rule_not_by_line_ends:
  "hd lead_text_line \<notin> LEFT_BORDER
   \<and> border_columns lead_text_line = [1, 2, 3, 4]
   \<and> map fst (get_border_positions lead_text_line True) = [2, 3]
   \<and> hd [VERT] \<in> LEFT_BORDER \<and> last [VERT] \<in> RIGHT_BORDER
   \<and> border_columns [VERT] = [0]
   \<and> map fst (get_border_positions [VERT] True) = [0]"
  by (simp add: lead_text_line_def border_columns_def get_border_positions_def py_prims glyph_sets)

text \<open>
  Claim C4, amended: the column list that \<open>check_inner_alignment\<close> computes for a
  line (\<open>get_border_positions\<close> with \<open>inner_only\<close> true) is the ordered list of the
  line's border-glyph columns without its first and last entries exactly when the line
  holds at least two border glyphs, the first border glyph on the line is a left-border
  glyph and the last border glyph on the line is a right-border glyph, wherever on the
  line they stand; otherwise it is the full ordered list.
\<close>

theorem inner_columns_drop_rule:
  "map fst (get_border_positions line True)
     = (if outer_pair line then strip_ends (border_columns line) else border_columns line)"
proof (cases "glyph_positions BORDER_CHARS line = []")
  case True
  then show ?thesis
    by (simp add: get_border_positions_def outer_pair_def border_columns_positions
        strip_ends_def)
next
  case False
  then have "line \<noteq> []" by (auto simp: glyph_positions_def)
  then show ?thesis
    using False first_border_hd[OF False] last_border_last[OF False]
    by (auto simp: get_border_positions_def outer_pair_def border_columns_positions
        strip_ends_def map_butlast map_tl Let_def)
qed



section \<open>What the scanner emits\<close>

lemma py_index_nat: "0 \<le> i \<Longrightarrow> i < int (length xs) \<Longrightarrow> py_index xs i = Inr (xs ! nat i)"
  by (simp add: py_index_def py_norm_def)

lemma span_lines_snoc:
  "lo \<le> hi + 1 \<Longrightarrow> span_lines lines lo (hi + 1) = span_lines lines lo hi @ [(hi + 2, lines ! nat (hi + 1))]"
  by (simp add: span_lines_def upto_rec2)

lemma span_lines_single: "span_lines lines lo lo = [(lo + 1, lines ! nat lo)]"
  by (simp add: span_lines_def)

lemma scan_inv_step:
  assumes inv: "scan_inv lines a h st" and h: "0 \<le> a" "a \<le> h" "h < int (length lines)"
  shows "scan_inv lines a (h + 1) (find_boxes_step h (lines ! nat h) st)"
proof -
  obtain boxes cur where st: "st = (boxes, cur)" by (cases st)
  have old: "\<forall>b \<in> set boxes. \<exists>lo hi. a \<le> lo \<and> hi < h + 1 \<and> closed_span lines b lo hi"
  proof
    fix b assume "b \<in> set boxes"
    then obtain lo hi where "a \<le> lo" "hi < h" "closed_span lines b lo hi"
      using inv st by (auto simp: scan_inv_def)
    moreover from this have "hi < h + 1" by simp
    ultimately show "\<exists>lo hi. a \<le> lo \<and> hi < h + 1 \<and> closed_span lines b lo hi" by blast
  qed
  show ?thesis
  proof (cases cur)
    case None
    show ?thesis
    proof (cases "starts_top (lstrip (lines ! nat h))")
      case True
      have "open_span lines \<lparr>box_start = h + 1, box_width = length (lines ! nat h),
               box_lines = [(h + 1, lines ! nat h)], box_end = None\<rparr> h h"
        using True h by (simp add: open_span_def span_lines_single)
      then show ?thesis using old st None True h
        by (auto simp: scan_inv_def find_boxes_step_def Let_def)
    next
      case False
      then show ?thesis using old st None
        by (simp add: scan_inv_def find_boxes_step_def Let_def)
    qed
  next
    case (Some c)
    then obtain lo where lo: "a \<le> lo" "lo < h" "open_span lines c lo (h - 1)"
      using inv st by (auto simp: scan_inv_def)
    have lines_c: "box_lines c @ [(h + 1, lines ! nat h)] = span_lines lines lo h"
      using lo span_lines_snoc[of lo "h - 1" lines] by (simp add: open_span_def)
    show ?thesis
    proof (cases "starts_bottom (lstrip (lines ! nat h))")
      case True
      have "closed_span lines (c\<lparr>box_lines := box_lines c @ [(h + 1, lines ! nat h)],
                                 box_end := Some (h + 1)\<rparr>) lo h"
        using lo True h lines_c by (simp add: closed_span_def open_span_def)
      then have "\<exists>lo hi. a \<le> lo \<and> hi < h + 1 \<and> closed_span lines (c\<lparr>box_lines := box_lines c @ [(h + 1, lines ! nat h)],
                                 box_end := Some (h + 1)\<rparr>) lo hi"
        using lo by (intro exI[of _ lo] exI[of _ h]) simp
      then show ?thesis using old st Some True
        by (auto simp: scan_inv_def find_boxes_step_def Let_def)
    next
      case False
      have "open_span lines (c\<lparr>box_lines := box_lines c @ [(h + 1, lines ! nat h)]\<rparr>) lo h"
        using lo h lines_c by (simp add: open_span_def)
      then show ?thesis using old st Some False lo
        by (auto simp: scan_inv_def find_boxes_step_def Let_def)
    qed
  qed
qed

lemma find_boxes_loop_inv:
  assumes "0 \<le> a" "a \<le> h" "t < int (length lines)" "scan_inv lines a h st"
  shows "\<exists>st'. find_boxes_loop lines [h..t] st = Inr st' \<and> scan_inv lines a (max h (t + 1)) st'"
  using assms
proof (induction "nat (t + 1 - h)" arbitrary: h st)
  case 0
  then have "[h..t] = []" by simp
  moreover have "max h (t + 1) = h" using 0 by simp
  ultimately show ?case using 0 by simp
next
  case (Suc n)
  then have le: "h \<le> t" by simp
  then have rng: "[h..t] = h # [h + 1..t]" by (simp add: upto_rec1)
  have idx: "py_index lines h = Inr (lines ! nat h)"
    using Suc.prems le by (intro py_index_nat) simp_all
  have inv': "scan_inv lines a (h + 1) (find_boxes_step h (lines ! nat h) st)"
    using Suc.prems le by (intro scan_inv_step) simp_all
  have "n = nat (t + 1 - (h + 1))" using Suc.hyps by simp
  from Suc.hyps(1)[OF this Suc.prems(1) _ Suc.prems(3) inv'] Suc.prems
  obtain st' where "find_boxes_loop lines [h + 1..t] (find_boxes_step h (lines ! nat h) st) = Inr st'"
    and "scan_inv lines a (max (h + 1) (t + 1)) st'" by auto
  moreover have "max (h + 1) (t + 1) = max h (t + 1)" using le by simp
  ultimately show ?case using rng idx by simp
qed

lemma find_boxes_total:
  assumes "1 \<le> start_line"
  shows "\<exists>boxes. find_boxes lines start_line end_line = Inr boxes
          \<and> (\<forall>b \<in> set boxes. \<exists>lo hi. start_line - 1 \<le> lo
                \<and> hi < min end_line (int (length lines)) \<and> closed_span lines b lo hi)"
proof -
  let ?a = "start_line - 1" and ?t = "min end_line (int (length lines)) - 1"
  have start: "scan_inv lines ?a ?a ([], None)" by (simp add: scan_inv_def)
  have "0 \<le> ?a" "?a \<le> ?a" "?t < int (length lines)" using assms by simp_all
  from find_boxes_loop_inv[OF this start]
  obtain st' where run: "find_boxes_loop lines [?a..?t] ([], None) = Inr st'"
    and inv: "scan_inv lines ?a (max ?a (?t + 1)) st'" by auto
  have "\<exists>lo hi. ?a \<le> lo \<and> hi < ?t + 1 \<and> closed_span lines b lo hi" if "b \<in> set (fst st')" for b
  proof -
    from inv that obtain lo hi where *: "?a \<le> lo" "hi < max ?a (?t + 1)" "closed_span lines b lo hi"
      by (auto simp: scan_inv_def)
    then have "lo < hi" by (simp add: closed_span_def)
    with * have "hi < ?t + 1" by auto
    with * show ?thesis by blast
  qed
  then show ?thesis using run by (auto simp: find_boxes_def py_range_def)
qed



lemma top_not_bottom: "starts_top s \<Longrightarrow> \<not> starts_bottom s"
  by (cases s) (auto simp: starts_top_def starts_bottom_def)

lemma span_lines_numbers: "e \<in> set (span_lines lines lo hi) \<Longrightarrow> lo + 1 \<le> fst e \<and> fst e \<le> hi + 1"
  by (auto simp: span_lines_def)

lemma check_outer_width_lines:
  "check_outer_width b = Inr errs \<Longrightarrow> fst ` set errs \<subseteq> fst ` set (box_lines b)"
  by (auto simp: check_outer_width_def Let_def split: list.splits if_splits) force+

lemma check_outer_width_total:
  "box_lines b \<noteq> [] \<Longrightarrow> \<exists>errs. check_outer_width b = Inr errs"
  by (auto simp: check_outer_width_def Let_def split: list.splits)

lemma check_member_line: "err \<in> set (check_member ref_ln ref_cols e) \<Longrightarrow> fst err = fst e"
  by (cases e) (auto simp: check_member_def Let_def split: if_splits option.splits)

lemma check_group_lines: "err \<in> set (check_group g) \<Longrightarrow> fst err \<in> fst ` set g"
  by (cases g) (auto simp: check_group_def split: if_splits dest!: check_member_line)

lemma check_inner_alignment_lines:
  "fst ` set (check_inner_alignment b) \<subseteq> fst ` set (box_lines b)"
proof
  fix ln assume "ln \<in> fst ` set (check_inner_alignment b)"
  then obtain g where "g \<in> set (find_inner_box_groups b)" "ln \<in> fst ` set g"
    by (auto simp: check_inner_alignment_def dest!: check_group_lines)
  then have "ln \<in> fst ` set (concat (find_inner_box_groups b))" by auto
  then show "ln \<in> fst ` set (box_lines b)" using groups_in_box[of b] by blast
qed

text \<open>
  Claim C6: take a range that starts at line 1 or later, and a row \<open>i\<close> of it (line
  \<open>i + 1\<close>) whose left-trimmed text starts with a top-left corner and after which no row
  of the range starts, left-trimmed, with a bottom-left corner. Then the scan returns, and
  no emitted box holds line \<open>i + 1\<close> or a later one: every line number of every box is
  at most \<open>i\<close>, and so is the line number of every width error and of every
  inner-alignment error of these boxes.
\<close>

theorem unterminated_box_discarded:
  assumes "1 \<le> start_line"
    and "start_line - 1 \<le> i" and "i < min end_line (int (length lines))"
    and "starts_top (lstrip (lines ! nat i))"
    and "\<forall>j. i < j \<and> j < min end_line (int (length lines))
              \<longrightarrow> \<not> starts_bottom (lstrip (lines ! nat j))"
  shows "\<exists>boxes. find_boxes lines start_line end_line = Inr boxes
           \<and> (\<forall>b \<in> set boxes.
                 (\<forall>e \<in> set (box_lines b). fst e \<le> i)
                 \<and> (\<exists>errs. check_outer_width b = Inr errs \<and> (\<forall>err \<in> set errs. fst err \<le> i))
                 \<and> (\<forall>err \<in> set (check_inner_alignment b). fst err \<le> i))"
proof -
  from find_boxes_total[OF assms(1), of lines end_line]
  obtain boxes where run: "find_boxes lines start_line end_line = Inr boxes"
    and spans: "\<forall>b \<in> set boxes. \<exists>lo hi. start_line - 1 \<le> lo
                \<and> hi < min end_line (int (length lines)) \<and> closed_span lines b lo hi"
    by blast
  have "(\<forall>e \<in> set (box_lines b). fst e \<le> i)
        \<and> (\<exists>errs. check_outer_width b = Inr errs \<and> (\<forall>err \<in> set errs. fst err \<le> i))
        \<and> (\<forall>err \<in> set (check_inner_alignment b). fst err \<le> i)"
    if "b \<in> set boxes" for b
  proof -
    from spans that obtain lo hi where span: "start_line - 1 \<le> lo"
      "hi < min end_line (int (length lines))" "closed_span lines b lo hi" by blast
    have bottom: "starts_bottom (lstrip (lines ! nat hi))"
      and content: "box_lines b = span_lines lines lo hi" and "lo < hi"
      using span(3) by (simp_all add: closed_span_def)
    have "hi \<noteq> i" using bottom assms(4) top_not_bottom by blast
    moreover have "\<not> i < hi" using bottom span(2) assms(5) by blast
    ultimately have "hi < i" by simp
    then have numbers: "\<forall>e \<in> set (box_lines b). fst e \<le> i"
      using content span_lines_numbers[of _ lines lo hi] by fastforce
    have "box_lines b \<noteq> []" using content \<open>lo < hi\<close> by (simp add: span_lines_def)
    then obtain errs where errs: "check_outer_width b = Inr errs"
      using check_outer_width_total by blast
    have "\<forall>err \<in> set errs. fst err \<le> i"
      using check_outer_width_lines[OF errs] numbers by fastforce
    moreover have "\<forall>err \<in> set (check_inner_alignment b). fst err \<le> i"
      using check_inner_alignment_lines[of b] numbers by fastforce
    ultimately show ?thesis using numbers errs by blast
  qed
  then show ?thesis using run by blast
qed

lemma unterminated_scan: "find_boxes unterminated 1 5 = Inr [scenario_A_box]"
  by (simp add: unterminated_def scenario_A_defs scan_eval py_prims)

theorem unterminated_box_discarded_witness:
  "find_boxes unterminated 1 5 = Inr [scenario_A_box]
   \<and> fst (last (box_lines scenario_A_box)) \<le> 3"
proof -
  have "starts_top (lstrip (unterminated ! nat 3))"
    by (simp add: unterminated_def scenario_A_top_def starts_top_def lstrip_def isspace_def)
  moreover have "\<forall>j. 3 < j \<and> j < min 5 (int (length unterminated))
              \<longrightarrow> \<not> starts_bottom (lstrip (unterminated ! nat j))"
  proof (intro allI impI)
    fix j :: int assume "3 < j \<and> j < min 5 (int (length unterminated))"
    then have "j = 4" by (simp add: unterminated_def)
    then show "\<not> starts_bottom (lstrip (unterminated ! nat j))"
      by (simp add: unterminated_def scenario_A_mid_def starts_bottom_def lstrip_def isspace_def)
  qed
  ultimately obtain boxes where "find_boxes unterminated 1 5 = Inr boxes"
    and "\<forall>b \<in> set boxes. (\<forall>e \<in> set (box_lines b). fst e \<le> 3)"
    using unterminated_box_discarded[of 1 3 5 unterminated]
    by (auto simp: unterminated_def)
  then show ?thesis using unterminated_scan by (simp add: scenario_A_box_def)
qed

section \<open>The target width of the width fixer\<close>

lemma fix_outer_width_loop_skip:
  "\<forall>e \<in> set ls. py_norm lines (fst e - 1) = Some k \<longrightarrow> fix_width_line t (snd e) = None
   \<Longrightarrow> fst (fix_outer_width_loop t ls lines n) ! k = lines ! k"
proof (induction ls arbitrary: lines n)
  case Nil
  then show ?case by simp
next
  case (Cons e ls)
  obtain ln body where e: "e = (ln, body)" by (cases e)
  have rest: "\<forall>e \<in> set ls. py_norm lines (fst e - 1) = Some k \<longrightarrow> fix_width_line t (snd e) = None"
    using Cons.prems by simp
  show ?case
  proof (cases "fix_width_line t body")
    case None
    then show ?thesis using Cons.IH[OF rest] e by simp
  next
    case (Some new_line)
    then have this_row: "py_norm lines (ln - 1) \<noteq> Some k" using Cons.prems e by auto
    show ?thesis
    proof (cases "py_store lines (ln - 1) new_line")
      case (Inl err)
      then show ?thesis using Some e by simp
    next
      case (Inr lines')
      have len: "length lines' = length lines" using Inr by (rule py_store_length)
      have "\<forall>e \<in> set ls. py_norm lines' (fst e - 1) = Some k \<longrightarrow> fix_width_line t (snd e) = None"
        using rest by (simp add: py_norm_length_cong[OF len])
      then have "fst (fix_outer_width_loop t ls lines' (n + 1)) ! k = lines' ! k"
        by (rule Cons.IH)
      moreover have "lines' ! k = lines ! k" using Inr this_row by (rule py_store_other)
      ultimately show ?thesis using Some Inr e by simp
    qed
  qed
qed

lemma fix_width_line_same_length: "length body = t \<Longrightarrow> fix_width_line t body = None"
  by (simp add: fix_width_line_def)

lemma span_lines_entry:
  "e \<in> set (span_lines lines lo hi) \<Longrightarrow> \<exists>i. lo \<le> i \<and> i \<le> hi \<and> e = (i + 1, lines ! nat i)"
  by (auto simp: span_lines_def)

lemma py_norm_nat: "0 \<le> i \<Longrightarrow> i < int (length xs) \<Longrightarrow> py_norm xs i = Some (nat i)"
  by (simp add: py_norm_def)

lemma closed_span_kept:
  assumes span: "closed_span lines b lo hi" and e: "e \<in> set (box_lines b)"
    and len: "length (snd e) = t"
  shows "fst (fix_outer_width_loop t (box_lines b) lines n) ! nat (fst e - 1) = snd e"
proof -
  have bl: "box_lines b = span_lines lines lo hi" and lo: "0 \<le> lo" and hi: "hi < int (length lines)"
    using span by (simp_all add: closed_span_def)
  from e bl have "e \<in> set (span_lines lines lo hi)" by simp
  from span_lines_entry[OF this]
  obtain i where i: "lo \<le> i" "i \<le> hi" "e = (i + 1, lines ! nat i)" by blast
  have "\<forall>e' \<in> set (box_lines b). py_norm lines (fst e' - 1) = Some (nat i)
          \<longrightarrow> fix_width_line t (snd e') = None"
  proof (intro ballI impI)
    fix e' assume e': "e' \<in> set (box_lines b)" and k: "py_norm lines (fst e' - 1) = Some (nat i)"
    from e' bl have "e' \<in> set (span_lines lines lo hi)" by simp
    from span_lines_entry[OF this]
    obtain i' where i': "lo \<le> i'" "i' \<le> hi" "e' = (i' + 1, lines ! nat i')" by blast
    then have "py_norm lines (fst e' - 1) = Some (nat i')" using lo hi by (simp add: py_norm_nat)
    then have "i' = i" using k i' i lo by simp
    then show "fix_width_line t (snd e') = None"
      using i' i len by (simp add: fix_width_line_same_length)
  qed
  then have "fst (fix_outer_width_loop t (box_lines b) lines n) ! nat i = lines ! nat i"
    by (rule fix_outer_width_loop_skip)
  then show ?thesis using i by simp
qed


lemma closed_span_first:
  "closed_span lines b lo hi \<Longrightarrow>
     box_lines b \<noteq> [] \<and> hd (box_lines b) = (lo + 1, lines ! nat lo)
     \<and> box_width b = length (snd (hd (box_lines b)))"
  by (simp add: closed_span_def span_lines_def upto_rec1)

lemma padded_scan: "find_boxes padded_diagram 1 3 = Inr [padded_box]"
  by (simp add: short_defs scan_eval py_prims)

lemma padded_check: "check_outer_width padded_box = Inr [(2, 3, 4, padded_mid)]"
  by (simp add: short_defs width_eval py_prims glyph_sets)

lemma padded_fix: "fix_outer_width padded_diagram padded_box None = (padded_diagram, Inr 0)"
  by (simp add: short_defs width_eval py_prims glyph_sets)

lemma blank_scan: "find_boxes blank_diagram 1 3 = Inr [blank_box]"
  by (simp add: short_defs scan_eval py_prims)

lemma blank_check: "check_outer_width blank_box = Inr []"
  by (simp add: short_defs width_eval py_prims glyph_sets)

text \<open>
  Claim C9: for a box scanned from a range that starts at line 1 or later, the width the
  scanner records, which the width fixer takes as its target, is the raw length of the
  box's first line, trailing blanks included (for \<open>blank_diagram\<close> it is 5 where the
  width check expects 4); and the fixer leaves every box line of that raw length as it is
  in the buffer, also one that the width check reports: the middle line of
  \<open>padded_diagram\<close> has raw length 4, the check reports it with width 3 against 4, and
  the fixer makes no fix.
\<close>

theorem fix_width_target_is_raw_length:
  "(1 \<le> start_line \<and> find_boxes lines start_line end_line = Inr boxes \<and> b \<in> set boxes
      \<longrightarrow> box_lines b \<noteq> []
          \<and> box_width b = length (snd (hd (box_lines b)))
          \<and> snd (hd (box_lines b)) = lines ! nat (box_start b - 1)
          \<and> fix_outer_width lines b None = fix_outer_width lines b (Some (box_width b))
          \<and> (\<forall>e \<in> set (box_lines b). length (snd e) = box_width b
                \<longrightarrow> fst (fix_outer_width lines b None) ! nat (fst e - 1) = snd e))
   \<and> find_boxes padded_diagram 1 3 = Inr [padded_box]
   \<and> length padded_mid = box_width padded_box
   \<and> check_outer_width padded_box = Inr [(2, 3, 4, padded_mid)]
   \<and> fix_outer_width padded_diagram padded_box None = (padded_diagram, Inr 0)
   \<and> find_boxes blank_diagram 1 3 = Inr [blank_box]
   \<and> box_width blank_box = 5 \<and> expected_width blank_top = 4"
proof -
  have general: "box_lines b \<noteq> []
          \<and> box_width b = length (snd (hd (box_lines b)))
          \<and> snd (hd (box_lines b)) = lines ! nat (box_start b - 1)
          \<and> fix_outer_width lines b None = fix_outer_width lines b (Some (box_width b))
          \<and> (\<forall>e \<in> set (box_lines b). length (snd e) = box_width b
                \<longrightarrow> fst (fix_outer_width lines b None) ! nat (fst e - 1) = snd e)"
    if "1 \<le> start_line" "find_boxes lines start_line end_line = Inr boxes" "b \<in> set boxes"
  proof -
    from find_boxes_total[OF that(1), of lines end_line] that(2,3)
    obtain lo hi where span: "closed_span lines b lo hi" by auto
    have "box_start b = lo + 1" using span by (simp add: closed_span_def)
    then show ?thesis
      using closed_span_first[OF span] closed_span_kept[OF span]
      by (simp add: fix_outer_width_def)
  qed
  have "length padded_mid = box_width padded_box" by (simp add: short_defs)
  moreover have "box_width blank_box = 5" by (simp add: short_defs)
  moreover have "expected_width blank_top = 4"
    by (simp add: short_defs width_eval py_prims glyph_sets)
  ultimately show ?thesis
    using general padded_scan padded_check padded_fix blank_scan by blast
qed

theorem fix_width_target_is_raw_length_witness:
  "fst (fix_outer_width padded_diagram padded_box None) ! nat (2 - 1) = padded_mid
   \<and> box_width padded_box = length short_top"
proof -
  have "find_boxes padded_diagram 1 3 = Inr [padded_box]" by (rule padded_scan)
  moreover have "padded_box \<in> set [padded_box]" by simp
  moreover have "(2, padded_mid) \<in> set (box_lines padded_box)" by (simp add: padded_box_def)
  moreover have "length (snd (2::int, padded_mid)) = box_width padded_box" by (simp add: short_defs)
  ultimately show ?thesis
    using fix_width_target_is_raw_length[of 1 padded_diagram 3 "[padded_box]" padded_box]
    by (fastforce simp: padded_box_def)
qed

section \<open>One error per member line, at the first mismatch\<close>

lemma nested_scan: "find_boxes nested_diagram 1 5 = Inr [nested_box]"
  by (simp add: nested_defs scan_eval py_prims)

lemma nested_groups:
  "find_inner_box_groups nested_box = [[(2, nested_ref), (3, nested_member), (4, nested_close)]]"
  by (simp add: nested_defs inner_eval py_prims glyph_sets)

lemma nested_ref_cols: "map fst (get_border_positions nested_ref True) = [2, 5]"
  by (simp add: nested_defs inner_eval py_prims glyph_sets)

lemma nested_member_cols: "map fst (get_border_positions nested_member True) = [3, 6]"
  by (simp add: nested_defs inner_eval py_prims glyph_sets)

lemma nested_check: "check_inner_alignment nested_box = [(3, 3, 2, 2, nested_member)]"
  unfolding check_inner_alignment_def nested_groups
  by (simp add: nested_defs inner_eval py_prims glyph_sets)

lemma find_first_mismatch:
  assumes "length cur = length ref"
  shows "List.find (\<lambda>(rc, cc). rc \<noteq> cc) (zip ref cur)
         = (if \<exists>j<length ref. ref ! j \<noteq> cur ! j
            then Some (ref ! (LEAST j. ref ! j \<noteq> cur ! j), cur ! (LEAST j. ref ! j \<noteq> cur ! j))
            else None)"
proof (cases "\<exists>j<length ref. ref ! j \<noteq> cur ! j")
  case False
  then have "List.find (\<lambda>(rc, cc). rc \<noteq> cc) (zip ref cur) = None"
    using assms by (auto simp: find_None_iff in_set_zip)
  then show ?thesis using False by auto
next
  case True
  define J where "J = (LEAST j. ref ! j \<noteq> cur ! j)"
  have J: "ref ! J \<noteq> cur ! J" unfolding J_def using True by (metis (mono_tags, lifting) LeastI)
  have least: "\<And>j. j < J \<Longrightarrow> ref ! j = cur ! j"
    unfolding J_def using not_less_Least by blast
  from True obtain j where "j < length ref" "ref ! j \<noteq> cur ! j" by blast
  then have "J \<le> j" unfolding J_def by (simp add: Least_le)
  then have Jlt: "J < length ref" using \<open>j < length ref\<close> by simp
  have "List.find (\<lambda>(rc, cc). rc \<noteq> cc) (zip ref cur) = Some (ref ! J, cur ! J)"
    unfolding find_Some_iff
    using assms J Jlt least by (intro exI[of _ J]) auto
  then show ?thesis using True by (simp add: J_def)
qed

lemma check_member_equal_count:
  assumes cols: "cur_cols = map fst (get_border_positions body True)"
    and len: "length cur_cols = length ref_cols"
  shows "check_member ref_ln ref_cols (ln, body)
         = (if \<exists>j<length ref_cols. ref_cols ! j \<noteq> cur_cols ! j
            then [(ln, cur_cols ! (LEAST j. ref_cols ! j \<noteq> cur_cols ! j),
                   ref_cols ! (LEAST j. ref_cols ! j \<noteq> cur_cols ! j), ref_ln, body)]
            else [])"
proof -
  have eq: "check_member ref_ln ref_cols (ln, body)
        = (case List.find (\<lambda>(rc, cc). rc \<noteq> cc) (zip ref_cols cur_cols) of
             None \<Rightarrow> []
           | Some (rc, cc) \<Rightarrow> [(ln, cc, rc, ref_ln, body)])"
    by (simp only: check_member_def Let_def prod.case cols[symmetric] len) simp
  show ?thesis
  proof (cases "\<exists>j<length ref_cols. ref_cols ! j \<noteq> cur_cols ! j")
    case True
    then show ?thesis
      by (simp only: eq find_first_mismatch[OF len] True if_True option.case prod.case)
  next
    case False
    then show ?thesis
      by (simp only: eq find_first_mismatch[OF len] False if_False option.case)
  qed
qed

lemma filter_concat_single:
  assumes "xs = pre @ x0 # post"
    and "\<forall>x \<in> set pre \<union> set post. \<forall>y \<in> set (f x). \<not> P y"
  shows "filter P (concat (map f xs)) = filter P (f x0)"
proof -
  have none: "filter P (concat (map f ys)) = []" if "\<forall>x \<in> set ys. \<forall>y \<in> set (f x). \<not> P y" for ys
    using that by (induction ys) auto
  have "filter P (concat (map f pre)) = []" using assms(2) by (intro none) auto
  moreover have "filter P (concat (map f post)) = []" using assms(2) by (intro none) auto
  ultimately show ?thesis using assms(1) by simp
qed

lemma group_step_flat:
  "group_step e (gs, cur, f) = (gs', cur', f')
   \<Longrightarrow> concat gs' @ cur' = concat gs @ [e] \<or> concat gs' @ cur' = concat gs @ cur @ [e]
       \<or> concat gs' @ cur' = concat gs @ cur"
  by (cases e) (auto simp: group_step_def Let_def split: if_splits)

lemma distinct_keys_cases:
  assumes "distinct (map fst (X @ C) @ fst e # ks)"
  shows "distinct (map fst (X @ [e]) @ ks)"
    and "distinct (map fst (X @ C @ [e]) @ ks)"
    and "distinct (map fst (X @ C) @ ks)"
  using assms by auto

lemma group_step_distinct:
  assumes "group_step e (gs, cur, f) = (gs', cur', f')"
    and "distinct (map fst (concat gs @ cur) @ fst e # ks)"
  shows "distinct (map fst (concat gs' @ cur') @ ks)"
proof -
  from group_step_flat[OF assms(1)]
  consider (top) "concat gs' @ cur' = concat gs @ [e]"
    | (add) "concat gs' @ cur' = concat gs @ cur @ [e]"
    | (skip) "concat gs' @ cur' = concat gs @ cur"
    by blast
  then show ?thesis
  proof cases
    case top
    show ?thesis unfolding top by (rule distinct_keys_cases(1)[OF assms(2)])
  next
    case add
    show ?thesis unfolding add by (rule distinct_keys_cases(2)[OF assms(2)])
  next
    case skip
    show ?thesis unfolding skip by (rule distinct_keys_cases(3)[OF assms(2)])
  qed
qed

lemma fold_group_step_distinct:
  "distinct (map fst (concat (fst st) @ fst (snd st)) @ map fst es)
   \<Longrightarrow> distinct (map fst (concat (fst (fold group_step es st))))"
proof (induction es arbitrary: st)
  case Nil
  then show ?case by simp
next
  case (Cons e es)
  obtain gs cur f where st: "st = (gs, cur, f)" by (cases st)
  obtain gs' cur' f' where st': "group_step e st = (gs', cur', f')"
    by (cases "group_step e st")
  have "distinct (map fst (concat gs' @ cur') @ map fst es)"
    using group_step_distinct[of e gs cur f gs' cur' f' "map fst es"] st st' Cons.prems by simp
  then show ?case using Cons.IH[of "group_step e st"] st' by simp
qed

lemma distinct_strip_ends: "distinct (map fst xs) \<Longrightarrow> distinct (map fst (strip_ends xs))"
  unfolding strip_ends_def by (simp add: map_butlast map_tl distinct_butlast distinct_tl)

lemma groups_distinct:
  "distinct (map fst (box_lines b)) \<Longrightarrow> distinct (map fst (concat (find_inner_box_groups b)))"
  using fold_group_step_distinct[of "([], [], False)" "strip_ends (box_lines b)"]
    distinct_strip_ends[of "box_lines b"]
  by (simp add: find_inner_box_groups_def Let_def)


lemma distinct_apart:
  "distinct (A @ G' @ B @ G @ C) \<Longrightarrow> set G \<inter> set G' = {}"
  "distinct (A @ G @ B @ G' @ C) \<Longrightarrow> set G \<inter> set G' = {}"
  by auto

lemma distinct_concat_parts:
  assumes "distinct (map fst (concat (pre @ g # post)))" and "g' \<in> set pre \<union> set post"
  shows "fst ` set g \<inter> fst ` set g' = {}"
proof -
  from assms(2) consider (before) "g' \<in> set pre" | (after) "g' \<in> set post" by blast
  then have "set (map fst g) \<inter> set (map fst g') = {}"
  proof cases
    case before
    then obtain p1 p2 where "pre = p1 @ g' # p2" by (meson split_list)
    then have "map fst (concat (pre @ g # post))
               = map fst (concat p1) @ map fst g' @ map fst (concat p2) @ map fst g
                 @ map fst (concat post)"
      by simp
    then show ?thesis using assms(1) distinct_apart(1) by metis
  next
    case after
    then obtain p1 p2 where "post = p1 @ g' # p2" by (meson split_list)
    then have "map fst (concat (pre @ g # post))
               = map fst (concat pre) @ map fst g @ map fst (concat p1) @ map fst g'
                 @ map fst (concat p2)"
      by simp
    then show ?thesis using assms(1) distinct_apart(2) by metis
  qed
  then show ?thesis by simp
qed

lemma span_lines_distinct: "distinct (map fst (span_lines lines lo hi))"
proof -
  have "map fst (span_lines lines lo hi) = map (\<lambda>i. i + 1) [lo..hi]"
    by (simp add: span_lines_def comp_def)
  then show ?thesis by (simp add: distinct_map inj_on_def)
qed

lemma scanned_lines_distinct: "closed_span lines b lo hi \<Longrightarrow> distinct (map fst (box_lines b))"
  by (simp add: closed_span_def span_lines_distinct)

text \<open>
  Claim C7: in a box whose lines carry distinct line numbers (as every scanned box does,
  lemma \<open>scanned_lines_distinct\<close>), take a group with reference line \<open>ref_ln\<close> and a
  member line \<open>ln\<close> whose column count equals the reference's. Then the errors that
  \<open>check_inner_alignment\<close> reports for line \<open>ln\<close> are: nothing when the columns agree
  throughout, and otherwise the single record for the least position at which they
  differ, with the member's column and the reference's column at that position. In both
  cases there is at most one error for the line.
\<close>

theorem first_mismatch_only:
  assumes dist: "distinct (map fst (box_lines b))"
    and grp: "(ref_ln, ref_txt) # members \<in> set (find_inner_box_groups b)"
    and mem: "(ln, body) \<in> set members"
    and ref: "ref_cols = map fst (get_border_positions ref_txt True)"
    and cur: "cur_cols = map fst (get_border_positions body True)"
    and len: "length cur_cols = length ref_cols"
  shows "filter (\<lambda>err. fst err = ln) (check_inner_alignment b)
           = (if \<exists>j<length ref_cols. ref_cols ! j \<noteq> cur_cols ! j
              then [(ln, cur_cols ! (LEAST j. ref_cols ! j \<noteq> cur_cols ! j),
                     ref_cols ! (LEAST j. ref_cols ! j \<noteq> cur_cols ! j), ref_ln, body)]
              else [])
         \<and> length (filter (\<lambda>err. fst err = ln) (check_inner_alignment b)) \<le> 1"
proof -
  let ?g = "(ref_ln, ref_txt) # members"
  let ?P = "\<lambda>err::align_error. fst err = ln"
  have D: "distinct (map fst (concat (find_inner_box_groups b)))"
    using dist by (rule groups_distinct)
  from grp obtain pre post where split: "find_inner_box_groups b = pre @ ?g # post"
    by (meson split_list)
  have others: "\<forall>g' \<in> set pre \<union> set post. \<forall>y \<in> set (check_group g'). \<not> ?P y"
  proof (intro ballI)
    fix g' y assume g': "g' \<in> set pre \<union> set post" and y: "y \<in> set (check_group g')"
    have "fst ` set ?g \<inter> fst ` set g' = {}"
      using distinct_concat_parts[of pre ?g post g'] D split g' by simp
    moreover have "ln \<in> fst ` set ?g" using mem by force
    moreover have "fst y \<in> fst ` set g'" using y by (rule check_group_lines)
    ultimately show "\<not> ?P y" by auto
  qed
  have level1: "filter ?P (check_inner_alignment b) = filter ?P (check_group ?g)"
    unfolding check_inner_alignment_def using split others by (rule filter_concat_single)
  have Dg: "distinct (map fst ?g)" using D split by simp
  from mem obtain mpre mpost where msplit: "members = mpre @ (ln, body) # mpost"
    by (meson split_list)
  have mothers: "\<forall>m \<in> set mpre \<union> set mpost.
                   \<forall>y \<in> set (check_member ref_ln ref_cols m). \<not> ?P y"
  proof (intro ballI)
    fix m y assume m: "m \<in> set mpre \<union> set mpost"
      and y: "y \<in> set (check_member ref_ln ref_cols m)"
    have "fst m \<noteq> ln" using Dg msplit m by auto
    moreover have "fst y = fst m" using y by (rule check_member_line)
    ultimately show "\<not> ?P y" by simp
  qed
  have "check_group ?g = concat (map (check_member ref_ln ref_cols) members)"
    using msplit by (simp add: check_group_def ref)
  then have level2: "filter ?P (check_group ?g)
                     = filter ?P (check_member ref_ln ref_cols (ln, body))"
    using filter_concat_single[OF msplit mothers] by simp
  have "\<forall>y \<in> set (check_member ref_ln ref_cols (ln, body)). ?P y"
    using check_member_line by fastforce
  then have "filter ?P (check_member ref_ln ref_cols (ln, body))
             = check_member ref_ln ref_cols (ln, body)"
    by (simp add: filter_id_conv)
  then have "filter ?P (check_inner_alignment b) = check_member ref_ln ref_cols (ln, body)"
    using level1 level2 by simp
  then show ?thesis unfolding check_member_equal_count[OF cur len] by simp
qed

theorem first_mismatch_only_witness:
  "nested_member ! 3 = VERT \<and> nested_member ! 6 = VERT
   \<and> filter (\<lambda>err. fst err = 3) (check_inner_alignment nested_box)
       = [(3, 3, 2, 2, nested_member)]"
proof -
  have dist: "distinct (map fst (box_lines nested_box))" by (simp add: nested_box_def)
  have grp: "(2, nested_ref) # [(3, nested_member), (4, nested_close)]
             \<in> set (find_inner_box_groups nested_box)"
    by (simp add: nested_groups)
  have mem: "(3, nested_member) \<in> set [(3, nested_member), (4, nested_close)]" by simp
  have len: "length [3::nat, 6] = length [2::nat, 5]" by simp
  have mismatch: "\<exists>j<length [2::nat, 5]. [2::nat, 5] ! j \<noteq> [3, 6] ! j"
    by (intro exI[of _ 0]) simp
  have least: "(LEAST j. [2::nat, 5] ! j \<noteq> [3, 6] ! j) = 0"
    by (rule Least_equality) simp_all
  show ?thesis
    using first_mismatch_only[OF dist grp mem nested_ref_cols[symmetric]
        nested_member_cols[symmetric] len] mismatch least
    by (simp add: nested_member_def)
qed

section \<open>The order of the anchor search\<close>

lemma scan_window_None:
  "scan_window S line col = None
   \<longleftrightarrow> \<not> (\<exists>c. col - 3 \<le> c \<and> c \<le> col + 3 \<and> c < length line \<and> line ! c \<in> S)"
proof -
  have "set [col - 3 ..< min (length line) (col + 4)]
        = {c. col - 3 \<le> c \<and> c \<le> col + 3 \<and> c < length line}"
    by auto
  then show ?thesis unfolding scan_window_def find_None_iff by blast
qed

lemma scan_window_Some:
  assumes "scan_window S line col = Some c"
  shows "col - 3 \<le> c \<and> c \<le> col + 3 \<and> c < length line \<and> line ! c \<in> S
         \<and> (\<forall>c'. col - 3 \<le> c' \<and> c' < c \<longrightarrow> line ! c' \<notin> S)"
proof -
  let ?xs = "[col - 3 ..< min (length line) (col + 4)]"
  from assms obtain k where k: "k < length ?xs" "line ! (?xs ! k) \<in> S" "c = ?xs ! k"
    "\<forall>j<k. line ! (?xs ! j) \<notin> S"
    unfolding scan_window_def find_Some_iff by blast
  from k(1) have "k < min (length line) (col + 4) - (col - 3)" by simp
  then have lt: "col - 3 + k < min (length line) (col + 4)" by arith
  have c: "c = col - 3 + k" using k(3) nth_upt[OF lt] by simp
  have first: "line ! c' \<notin> S" if low: "col - 3 \<le> c'" and high: "c' < c" for c'
  proof -
    have j: "c' - (col - 3) < k" using low high c by arith
    have "col - 3 + (c' - (col - 3)) < min (length line) (col + 4)" using j lt by arith
    from nth_upt[OF this] have "?xs ! (c' - (col - 3)) = c'" using low by simp
    then show ?thesis using k(4) j by metis
  qed
  have in_S: "line ! c \<in> S" using k(2) k(3) by simp
  have bounds: "col - 3 \<le> c \<and> c \<le> col + 3 \<and> c < length line" using lt c by arith
  show ?thesis using in_S bounds first by blast
qed

lemma search_rows_none:
  assumes "\<forall>r \<in> set rs. 0 \<le> r \<and> r < int (length lines)"
    and "\<forall>r \<in> set rs. scan_window S (lines ! nat r) col = None"
  shows "search_rows S lines rs col = Inr None"
  using assms by (induction rs) (simp_all add: py_index_nat)

lemma search_rows_some:
  assumes "\<forall>r \<in> set (pre @ [r0]). 0 \<le> r \<and> r < int (length lines)"
    and "\<forall>r \<in> set pre. scan_window S (lines ! nat r) col = None"
    and "scan_window S (lines ! nat r0) col = Some c0"
  shows "search_rows S lines (pre @ r0 # post) col = Inr (Some (r0, c0))"
  using assms by (induction pre) (simp_all add: py_index_nat)

lemma search_rows_cong:
  "\<forall>r \<in> set rs. py_index lines' r = py_index lines r
   \<Longrightarrow> search_rows S lines' rs col = search_rows S lines rs col"
  by (induction rs) (auto split: sum.splits option.splits)

lemma up_rows_set:
  "0 \<le> i \<Longrightarrow> set (up_rows i) = {r. 0 \<le> r \<and> i - 14 \<le> r \<and> r \<le> i - 1}"
  by (auto simp: up_rows_def py_range_down_def)

lemma up_rows_sorted: "sorted_wrt (>) (up_rows i)"
  by (simp add: up_rows_def py_range_down_def sorted_wrt_rev strict_sorted_iff)

lemma down_rows_set:
  "set (down_rows lines i) = {r. i + 1 \<le> r \<and> r \<le> i + 14 \<and> r < int (length lines)}"
  by (auto simp: down_rows_def py_range_def)

lemma down_rows_sorted: "sorted_wrt (<) (down_rows lines i)"
  by (simp add: down_rows_def py_range_def strict_sorted_iff)

lemma window_hit_scan:
  "0 \<le> r \<Longrightarrow> r < int (length lines)
   \<Longrightarrow> (\<exists>c. window_hit S lines col r c) \<longleftrightarrow> scan_window S (lines ! nat r) col \<noteq> None"
  by (auto simp: window_hit_def scan_window_None)

text \<open>The first hit of a search over rows listed in a strict order.\<close>

lemma search_rows_first:
  assumes valid: "\<forall>r \<in> set rs. 0 \<le> r \<and> r < int (length lines)"
    and ord: "sorted_wrt ord rs"
    and hit: "r \<in> set rs" "window_hit S lines col r c"
  shows "\<exists>r0 c0. search_rows S lines rs col = Inr (Some (r0, c0))
           \<and> r0 \<in> set rs \<and> window_hit S lines col r0 c0
           \<and> (\<forall>r' c'. r' \<in> set rs \<and> window_hit S lines col r' c'
                 \<longrightarrow> ord r0 r' \<or> (r' = r0 \<and> c0 \<le> c'))"
proof -
  let ?P = "\<lambda>r. scan_window S (lines ! nat r) col \<noteq> None"
  have "\<exists>r \<in> set rs. ?P r" using hit valid window_hit_scan by blast
  then obtain pre r0 post where split: "rs = pre @ r0 # post" and r0: "?P r0"
    and pre: "\<forall>y \<in> set pre. \<not> ?P y"
    using split_list_first_prop[of rs ?P] by blast
  from r0 obtain c0 where c0: "scan_window S (lines ! nat r0) col = Some c0" by auto
  have r0_valid: "0 \<le> r0 \<and> r0 < int (length lines)" using valid split by simp
  have res: "search_rows S lines rs col = Inr (Some (r0, c0))"
    unfolding split using valid pre c0 split by (intro search_rows_some) auto
  have hit0: "window_hit S lines col r0 c0"
    using scan_window_Some[OF c0] r0_valid by (simp add: window_hit_def)
  have best: "ord r0 r' \<or> (r' = r0 \<and> c0 \<le> c')"
    if row: "r' \<in> set rs" and glyph: "window_hit S lines col r' c'" for r' c'
  proof -
    have "?P r'" using row glyph valid window_hit_scan by blast
    then have "r' \<notin> set pre" using pre by blast
    then consider "r' = r0" | "r' \<in> set post" using row split by auto
    then show ?thesis
    proof cases
      case 1
      have "\<not> c' < c0"
        using scan_window_Some[OF c0] glyph 1 by (auto simp: window_hit_def)
      then show ?thesis using 1 by simp
    next
      case 2
      then have "ord r0 r'" using ord split by (simp add: sorted_wrt_append)
      then show ?thesis by simp
    qed
  qed
  show ?thesis using res split hit0 best by auto
qed


lemma up_rows_valid:
  "0 \<le> i \<Longrightarrow> i < int (length lines) \<Longrightarrow> \<forall>r \<in> set (up_rows i). 0 \<le> r \<and> r < int (length lines)"
  by (auto simp: up_rows_set)

lemma down_rows_valid:
  "0 \<le> i \<Longrightarrow> \<forall>r \<in> set (down_rows lines i). 0 \<le> r \<and> r < int (length lines)"
  by (auto simp: down_rows_set)

lemma up_hit_rows:
  "0 \<le> i \<Longrightarrow> up_hit lines i col r c \<longleftrightarrow> r \<in> set (up_rows i) \<and> window_hit JUNCTIONS lines col r c"
  by (auto simp: up_hit_def up_rows_set window_hit_def)

lemma down_hit_rows:
  "down_hit lines i col r c
   \<longleftrightarrow> r \<in> set (down_rows lines i) \<and> window_hit JUNCTIONS lines col r c"
  by (auto simp: down_hit_def down_rows_set window_hit_def)

lemma search_up_none:
  assumes i: "0 \<le> i" "i < int (length lines)" and none: "\<forall>r c. \<not> up_hit lines i col r c"
  shows "search_rows JUNCTIONS lines (up_rows i) col = Inr None"
proof (rule search_rows_none)
  show valid: "\<forall>r \<in> set (up_rows i). 0 \<le> r \<and> r < int (length lines)"
    using i by (rule up_rows_valid)
  show "\<forall>r \<in> set (up_rows i). scan_window JUNCTIONS (lines ! nat r) col = None"
  proof
    fix r assume r: "r \<in> set (up_rows i)"
    then have "\<not> (\<exists>c. window_hit JUNCTIONS lines col r c)"
      using none up_hit_rows[OF i(1)] by blast
    then show "scan_window JUNCTIONS (lines ! nat r) col = None"
      using window_hit_scan[of r lines JUNCTIONS col] valid r by blast
  qed
qed

lemma search_down_none:
  assumes i: "0 \<le> i" and none: "\<forall>r c. \<not> down_hit lines i col r c"
  shows "search_rows JUNCTIONS lines (down_rows lines i) col = Inr None"
proof (rule search_rows_none)
  show valid: "\<forall>r \<in> set (down_rows lines i). 0 \<le> r \<and> r < int (length lines)"
    using i by (rule down_rows_valid)
  show "\<forall>r \<in> set (down_rows lines i). scan_window JUNCTIONS (lines ! nat r) col = None"
  proof
    fix r assume r: "r \<in> set (down_rows lines i)"
    then have "\<not> (\<exists>c. window_hit JUNCTIONS lines col r c)"
      using none down_hit_rows by blast
    then show "scan_window JUNCTIONS (lines ! nat r) col = None"
      using window_hit_scan[of r lines JUNCTIONS col] valid r by blast
  qed
qed

lemma up_search_prefix:
  assumes i: "0 \<le> i" "i < int (length lines)" "i < int (length lines')"
    and same: "take (nat i) lines' = take (nat i) lines"
  shows "search_rows S lines' (up_rows i) col = search_rows S lines (up_rows i) col"
proof (rule search_rows_cong, rule ballI)
  fix r assume "r \<in> set (up_rows i)"
  then have r: "0 \<le> r" "r < i" using i(1) by (auto simp: up_rows_set)
  then have "nat r < nat i" by simp
  then have "lines' ! nat r = take (nat i) lines' ! nat r"
    and "lines ! nat r = take (nat i) lines ! nat r" by simp_all
  then have "lines' ! nat r = lines ! nat r" using same by simp
  then show "py_index lines' r = py_index lines r"
    using r i by (simp add: py_index_nat)
qed

text \<open>
  Claim C5: for a glyph at an existing row \<open>i\<close> and column \<open>col\<close>. If the upward
  window (rows \<open>i - 1\<close> down to \<open>i - 14\<close>, columns \<open>col - 3\<close> to \<open>col + 3\<close>) holds a
  junction glyph, the search returns the one met first when the rows are taken nearer-first
  and the columns left to right, and the result is the same for every buffer that agrees
  with this one on the rows above \<open>i\<close>: neither the downward window nor the neighbour
  fallback has a say. If the upward window holds none and the downward window (rows
  \<open>i + 1\<close> to \<open>i + 14\<close>) holds one, the search returns the first one of the downward
  window in the same order. Only when neither window holds a junction glyph is the result
  that of the neighbour fallback.
\<close>

theorem anchor_search_order:
  assumes i: "0 \<le> i" "i < int (length lines)"
  shows "(up_hit lines i col r c \<longrightarrow>
            (\<exists>r0 c0. get_closest_anchor lines i col = Inr (Some (r0, c0))
               \<and> up_hit lines i col r0 c0
               \<and> (\<forall>r' c'. up_hit lines i col r' c' \<longrightarrow> r' < r0 \<or> (r' = r0 \<and> c0 \<le> c'))
               \<and> (\<forall>lines'. take (nat i) lines' = take (nat i) lines \<and> i < int (length lines')
                     \<longrightarrow> get_closest_anchor lines' i col = Inr (Some (r0, c0)))))
       \<and> ((\<forall>r' c'. \<not> up_hit lines i col r' c') \<and> down_hit lines i col r c \<longrightarrow>
            (\<exists>r0 c0. get_closest_anchor lines i col = Inr (Some (r0, c0))
               \<and> down_hit lines i col r0 c0
               \<and> (\<forall>r' c'. down_hit lines i col r' c' \<longrightarrow> r0 < r' \<or> (r' = r0 \<and> c0 \<le> c'))))
       \<and> ((\<forall>r' c'. \<not> up_hit lines i col r' c') \<and> (\<forall>r' c'. \<not> down_hit lines i col r' c') \<longrightarrow>
            get_closest_anchor lines i col
              = search_rows FLOATING lines (neighbour_rows lines i) col)"
proof -
  have up: "\<exists>r0 c0. get_closest_anchor lines i col = Inr (Some (r0, c0))
               \<and> up_hit lines i col r0 c0
               \<and> (\<forall>r' c'. up_hit lines i col r' c' \<longrightarrow> r' < r0 \<or> (r' = r0 \<and> c0 \<le> c'))
               \<and> (\<forall>lines'. take (nat i) lines' = take (nat i) lines \<and> i < int (length lines')
                     \<longrightarrow> get_closest_anchor lines' i col = Inr (Some (r0, c0)))"
    if hit: "up_hit lines i col r c"
  proof -
    have "r \<in> set (up_rows i)" "window_hit JUNCTIONS lines col r c"
      using hit up_hit_rows[OF i(1)] by blast+
    from search_rows_first[OF up_rows_valid[OF i] up_rows_sorted this]
    obtain r0 c0 where res: "search_rows JUNCTIONS lines (up_rows i) col = Inr (Some (r0, c0))"
      and r0: "r0 \<in> set (up_rows i)" "window_hit JUNCTIONS lines col r0 c0"
      and best: "\<forall>r' c'. r' \<in> set (up_rows i) \<and> window_hit JUNCTIONS lines col r' c'
                   \<longrightarrow> r0 > r' \<or> (r' = r0 \<and> c0 \<le> c')"
      by blast
    have a: "get_closest_anchor lines i col = Inr (Some (r0, c0))"
      by (simp add: get_closest_anchor_def res)
    have b: "up_hit lines i col r0 c0" using r0 up_hit_rows[OF i(1)] by blast
    have c: "\<forall>r' c'. up_hit lines i col r' c' \<longrightarrow> r' < r0 \<or> (r' = r0 \<and> c0 \<le> c')"
      using best up_hit_rows[OF i(1)] by blast
    have d: "get_closest_anchor lines' i col = Inr (Some (r0, c0))"
      if "take (nat i) lines' = take (nat i) lines \<and> i < int (length lines')" for lines'
    proof -
      have "search_rows JUNCTIONS lines' (up_rows i) col = Inr (Some (r0, c0))"
        using up_search_prefix[of i lines lines' JUNCTIONS col] i that res by simp
      then show ?thesis by (simp add: get_closest_anchor_def)
    qed
    show ?thesis using a b c d by blast
  qed
  have down: "\<exists>r0 c0. get_closest_anchor lines i col = Inr (Some (r0, c0))
               \<and> down_hit lines i col r0 c0
               \<and> (\<forall>r' c'. down_hit lines i col r' c' \<longrightarrow> r0 < r' \<or> (r' = r0 \<and> c0 \<le> c'))"
    if none: "\<forall>r' c'. \<not> up_hit lines i col r' c'" and hit: "down_hit lines i col r c"
  proof -
    have "r \<in> set (down_rows lines i)" "window_hit JUNCTIONS lines col r c"
      using hit down_hit_rows by blast+
    from search_rows_first[OF down_rows_valid[OF i(1)] down_rows_sorted this]
    obtain r0 c0
      where res: "search_rows JUNCTIONS lines (down_rows lines i) col = Inr (Some (r0, c0))"
      and r0: "r0 \<in> set (down_rows lines i)" "window_hit JUNCTIONS lines col r0 c0"
      and best: "\<forall>r' c'. r' \<in> set (down_rows lines i) \<and> window_hit JUNCTIONS lines col r' c'
                   \<longrightarrow> r0 < r' \<or> (r' = r0 \<and> c0 \<le> c')"
      by blast
    have a: "get_closest_anchor lines i col = Inr (Some (r0, c0))"
      by (simp add: get_closest_anchor_def search_up_none[OF i none] res)
    have b: "down_hit lines i col r0 c0" using r0 down_hit_rows by blast
    have c: "\<forall>r' c'. down_hit lines i col r' c' \<longrightarrow> r0 < r' \<or> (r' = r0 \<and> c0 \<le> c')"
      using best down_hit_rows by blast
    show ?thesis using a b c by blast
  qed
  have fallback: "get_closest_anchor lines i col
                  = search_rows FLOATING lines (neighbour_rows lines i) col"
    if "\<forall>r' c'. \<not> up_hit lines i col r' c'" "\<forall>r' c'. \<not> down_hit lines i col r' c'"
    by (simp add: get_closest_anchor_def search_up_none[OF i that(1)]
        search_down_none[OF i(1) that(2)])
  show ?thesis using up down fallback by blast
qed


theorem anchor_search_order_witness:
  "(\<exists>r0 c0. get_closest_anchor stem_diagram 3 4 = Inr (Some (r0, c0))
       \<and> up_hit stem_diagram 3 4 r0 c0)
   \<and> (\<exists>r0 c0. get_closest_anchor above_diagram 0 4 = Inr (Some (r0, c0))
       \<and> down_hit above_diagram 0 4 r0 c0)
   \<and> get_closest_anchor [stem_bar] 0 4
       = search_rows FLOATING [stem_bar] (neighbour_rows [stem_bar] 0) 4"
proof -
  have up: "up_hit stem_diagram 3 4 2 3"
    by (simp add: up_hit_def window_hit_def stem_defs JUNCTIONS_def)
  have no_up: "\<forall>r' c'. \<not> up_hit above_diagram 0 4 r' c'"
    by (auto simp: up_hit_def window_hit_def)
  have down: "down_hit above_diagram 0 4 2 3"
    by (simp add: down_hit_def window_hit_def above_diagram_def stem_defs JUNCTIONS_def)
  have no_up1: "\<forall>r' c'. \<not> up_hit [stem_bar] 0 4 r' c'"
    by (auto simp: up_hit_def window_hit_def)
  have no_down1: "\<forall>r' c'. \<not> down_hit [stem_bar] 0 4 r' c'"
    by (auto simp: down_hit_def window_hit_def)
  have "\<exists>r0 c0. get_closest_anchor stem_diagram 3 4 = Inr (Some (r0, c0))
       \<and> up_hit stem_diagram 3 4 r0 c0"
    using up anchor_search_order[of 3 stem_diagram 4 2 3]
    by (simp add: stem_diagram_def) blast
  moreover have "\<exists>r0 c0. get_closest_anchor above_diagram 0 4 = Inr (Some (r0, c0))
       \<and> down_hit above_diagram 0 4 r0 c0"
    using no_up down anchor_search_order[of 0 above_diagram 4 2 3]
    by (simp add: above_diagram_def) blast
  moreover have "get_closest_anchor [stem_bar] 0 4
       = search_rows FLOATING [stem_bar] (neighbour_rows [stem_bar] 0) 4"
    using no_up1 no_down1 anchor_search_order[of 0 "[stem_bar]" 4 0 0] by simp
  ultimately show ?thesis by blast
qed

section \<open>Checking the width again after fixing it\<close>

lemma right_border_not_space: "c \<in> RIGHT_BORDER \<Longrightarrow> \<not> isspace c"
  by (auto simp: RIGHT_BORDER_def isspace_def)

lemma length_lstrip: "length (lstrip s) \<le> length s"
  by (simp add: lstrip_def length_dropWhile_le)

lemma length_rstrip: "length (rstrip s) \<le> length s"
  by (simp add: rstrip_def) (metis length_dropWhile_le length_rev)

lemma last_lstrip: "lstrip s \<noteq> [] \<Longrightarrow> last (lstrip s) = last s"
proof -
  assume ne: "lstrip s \<noteq> []"
  have "s = takeWhile isspace s @ lstrip s" by (simp add: lstrip_def)
  then have "last s = last (takeWhile isspace s @ lstrip s)" by simp
  also have "\<dots> = last (lstrip s)" using ne by (rule last_appendR)
  finally show ?thesis by simp
qed

lemma rstrip_id: "s \<noteq> [] \<Longrightarrow> \<not> isspace (last s) \<Longrightarrow> rstrip s = s"
proof -
  assume ne: "s \<noteq> []" and ns: "\<not> isspace (last s)"
  obtain x xs where r: "rev s = x # xs" using ne by (cases "rev s") auto
  have "hd (rev s) = last s" using ne by (simp add: hd_rev)
  then have "\<not> isspace x" using ns r by simp
  then have "dropWhile isspace (x # xs) = x # xs" by simp
  then have "rev (dropWhile isspace (rev s)) = rev (rev s)" unfolding r by simp
  then show ?thesis unfolding rstrip_def by simp
qed

lemma length_strip_ends: "length (strip_ends s) = length s - 2"
  by (simp add: strip_ends_def)

lemma length_spaces: "length (spaces n) = nat n"
  by (simp add: spaces_def)

lemma rewritten_shape:
  assumes pat: "border_pattern line" and fit: "fits_width t line"
  shows "length (rewritten t line) = t \<and> rewritten t line \<noteq> []
         \<and> last (rewritten t line) \<in> RIGHT_BORDER"
proof (cases "length line = t")
  case True
  have "line \<noteq> []" using pat length_lstrip[of line] by (auto simp: border_pattern_def)
  then show ?thesis using True pat
    by (simp add: rewritten_def fix_width_line_def border_pattern_def)
next
  case False
  define stripped where "stripped = lstrip line"
  define leading where "leading = length line - length stripped"
  define inner where "inner = strip_ends stripped"
  define off where "off = int t - int (length line)"
  have len2: "2 \<le> length stripped" and left: "hd stripped \<in> LEFT_BORDER"
    and right: "last line \<in> RIGHT_BORDER"
    using pat by (simp_all add: border_pattern_def stripped_def)
  have ne: "stripped \<noteq> []" using len2 by auto
  have lead: "int leading = int (length line) - int (length stripped)"
    using length_lstrip[of line] by (simp add: leading_def stripped_def)
  have last_s: "last stripped = last line" using ne last_lstrip by (simp add: stripped_def)
  have rs: "rstrip stripped = stripped"
    using ne last_s right right_border_not_space by (intro rstrip_id) auto
  have inner_len: "int (length inner) = int (length stripped) - 2"
    using len2 by (simp add: inner_def length_strip_ends)
  have slack: "int (length line) \<le> int t + (int (length inner) - int (length (rstrip inner)))"
    using fit length_rstrip[of inner]
    by (simp add: fits_width_def interior_slack_def inner_def stripped_def)
  define new_line where "new_line =
     (if off > 0
      then spaces (int leading) @ [hd stripped] @ inner @ spaces off @ [last line]
      else spaces (int leading) @ [hd stripped] @ rstrip inner
           @ spaces (max 0 (int (length inner) - int (length (rstrip inner)) + off))
           @ [last line])"
  have fx: "fix_width_line t line = Some new_line"
    using False ne left right rs last_s
    by (simp add: fix_width_line_def Let_def stripped_def[symmetric] leading_def[symmetric]
        inner_def[symmetric] off_def[symmetric] new_line_def)
  have len_new: "int (length new_line) = int t"
  proof (cases "off > 0")
    case True
    then show ?thesis using lead inner_len
      by (simp add: new_line_def length_spaces off_def)
  next
    case False
    then have "0 \<le> int (length inner) - int (length (rstrip inner)) + off"
      using slack by (simp add: off_def)
    then show ?thesis using False lead inner_len length_rstrip[of inner]
      by (simp add: new_line_def length_spaces off_def)
  qed
  have "new_line \<noteq> []" "last new_line = last line" by (simp_all add: new_line_def)
  then show ?thesis using fx len_new right by (simp add: rewritten_def)
qed


lemma py_max_default_Max:
  assumes "xs \<noteq> []"
  shows "py_max_default xs = int (Max (set xs))"
proof (cases xs)
  case Nil
  then show ?thesis using assms by simp
next
  case (Cons a list)
  have "Max (set (a # list)) = fold max list a" by (rule Max.set_eq_fold)
  then show ?thesis using Cons by (simp add: py_max_default_def)
qed

lemma rightmost_is_last:
  assumes ne: "line \<noteq> []" and glyph: "last line \<in> S"
  shows "py_max_default (glyph_indices S line) = int (length line) - 1"
proof -
  let ?A = "set (glyph_indices S line)"
  have A: "?A = {i. i < length line \<and> line ! i \<in> S}"
    by (auto simp: glyph_indices_filter)
  have top: "length line - 1 \<in> ?A"
    using ne glyph unfolding A by (simp add: last_conv_nth)
  have "\<forall>y \<in> ?A. y \<le> length line - 1" unfolding A by auto
  then have "Max ?A = length line - 1" using top by (intro Max_eqI) auto
  moreover have "glyph_indices S line \<noteq> []" using top by auto
  ultimately have "py_max_default (glyph_indices S line) = int (length line - 1)"
    by (simp add: py_max_default_Max)
  then show ?thesis using ne by (cases line) simp_all
qed

lemma closed_line_width:
  assumes "line \<noteq> []" and "last line \<in> RIGHT_BORDER"
  shows "line_width line = int (length line)" and "expected_width line = int (length line)"
  using rightmost_is_last[OF assms] assms(1)
  by (simp_all add: line_width_def expected_width_def Let_def)

lemma span_lines_Cons:
  "k \<le> hi \<Longrightarrow> span_lines lines k hi = (k + 1, lines ! nat k) # span_lines lines (k + 1) hi"
  by (simp add: span_lines_def upto_rec1)

lemma span_lines_Nil: "hi < k \<Longrightarrow> span_lines lines k hi = []"
  by (simp add: span_lines_def)

lemma rewritten_None: "fix_width_line t line = None \<Longrightarrow> rewritten t line = line"
  by (simp add: rewritten_def)

lemma rewritten_Some: "fix_width_line t line = Some v \<Longrightarrow> rewritten t line = v"
  by (simp add: rewritten_def)

lemma fix_loop_span:
  assumes "0 \<le> k" and "hi < int (length cur)"
    and "\<forall>j. k \<le> j \<and> j \<le> hi \<longrightarrow> cur ! nat j = orig ! nat j"
  shows "\<exists>res n'. fix_outer_width_loop t (span_lines orig k hi) cur n = (res, Inr n')
           \<and> length res = length cur
           \<and> (\<forall>j. k \<le> j \<and> j \<le> hi \<longrightarrow> res ! nat j = rewritten t (orig ! nat j))
           \<and> (\<forall>m. m < nat k \<longrightarrow> res ! m = cur ! m)"
  using assms
proof (induction "nat (hi + 1 - k)" arbitrary: k cur n)
  case 0
  then have lt: "hi < k" by simp
  have none: "\<And>j. k \<le> j \<and> j \<le> hi \<Longrightarrow> False" using lt by linarith
  show ?case unfolding span_lines_Nil[OF lt] using none by auto
next
  case (Suc d)
  then have le: "k \<le> hi" by simp
  have d: "d = nat (hi + 1 - (k + 1))" using Suc.hyps(2) by simp
  have k_ok: "0 \<le> k" "k < int (length cur)" using Suc.prems le by simp_all
  have at_k: "cur ! nat k = orig ! nat k" using Suc.prems(3) le by simp
  show ?case
  proof (cases "fix_width_line t (orig ! nat k)")
    case None
    have later: "\<forall>j. k + 1 \<le> j \<and> j \<le> hi \<longrightarrow> cur ! nat j = orig ! nat j"
      using Suc.prems(3) by simp
    from Suc.hyps(1)[OF d _ Suc.prems(2) later, of n] k_ok
    obtain res n' where
      run: "fix_outer_width_loop t (span_lines orig (k + 1) hi) cur n = (res, Inr n')"
      and len: "length res = length cur"
      and new: "\<forall>j. k + 1 \<le> j \<and> j \<le> hi \<longrightarrow> res ! nat j = rewritten t (orig ! nat j)"
      and old: "\<forall>m. m < nat (k + 1) \<longrightarrow> res ! m = cur ! m"
      by auto
    have "nat k < nat (k + 1)" using k_ok by simp
    then have "res ! nat k = cur ! nat k" using old by blast
    then have here: "res ! nat k = rewritten t (orig ! nat k)"
      using at_k None by (simp add: rewritten_None)
    have all: "res ! nat j = rewritten t (orig ! nat j)" if "k \<le> j \<and> j \<le> hi" for j
    proof (cases "j = k")
      case True
      then show ?thesis using here by simp
    next
      case False
      then show ?thesis using that new by simp
    qed
    have before: "res ! m = cur ! m" if "m < nat k" for m
      using that old k_ok by simp
    have "fix_outer_width_loop t (span_lines orig k hi) cur n = (res, Inr n')"
      using run None by (simp add: span_lines_Cons[OF le])
    then show ?thesis using len all before by blast
  next
    case (Some v)
    let ?cur' = "cur[nat k := v]"
    have store: "py_store cur (k + 1 - 1) v = Inr ?cur'"
      using k_ok by (simp add: py_store_def py_norm_def)
    have len': "hi < int (length ?cur')" using Suc.prems(2) by simp
    have later: "\<forall>j. k + 1 \<le> j \<and> j \<le> hi \<longrightarrow> ?cur' ! nat j = orig ! nat j"
    proof (intro allI impI)
      fix j assume j: "k + 1 \<le> j \<and> j \<le> hi"
      then have "nat j \<noteq> nat k" using k_ok by linarith
      then show "?cur' ! nat j = orig ! nat j" using Suc.prems(3) j by simp
    qed
    from Suc.hyps(1)[OF d _ len' later, of "n + 1"] k_ok
    obtain res n' where
      run: "fix_outer_width_loop t (span_lines orig (k + 1) hi) ?cur' (n + 1) = (res, Inr n')"
      and len: "length res = length ?cur'"
      and new: "\<forall>j. k + 1 \<le> j \<and> j \<le> hi \<longrightarrow> res ! nat j = rewritten t (orig ! nat j)"
      and old: "\<forall>m. m < nat (k + 1) \<longrightarrow> res ! m = ?cur' ! m"
      by auto
    have "nat k < nat (k + 1)" using k_ok by simp
    then have "res ! nat k = ?cur' ! nat k" using old by blast
    then have here: "res ! nat k = rewritten t (orig ! nat k)"
      using k_ok Some by (simp add: rewritten_Some)
    have all: "res ! nat j = rewritten t (orig ! nat j)" if "k \<le> j \<and> j \<le> hi" for j
    proof (cases "j = k")
      case True
      then show ?thesis using here by simp
    next
      case False
      then show ?thesis using that new by simp
    qed
    have before: "res ! m = cur ! m" if "m < nat k" for m
      using that old k_ok by simp
    have "fix_outer_width_loop t (span_lines orig k hi) cur n = (res, Inr n')"
      using run Some store by (simp add: span_lines_Cons[OF le])
    then show ?thesis using len all before by auto
  qed
qed

lemma reread_span:
  assumes "0 \<le> lo" and "hi < int (length new)"
  shows "reread_lines new (span_lines old lo hi) = Inr (span_lines new lo hi)"
  using assms
proof (induction "nat (hi + 1 - lo)" arbitrary: lo)
  case 0
  then have "hi < lo" by simp
  then show ?case by (simp add: span_lines_Nil)
next
  case (Suc d)
  then have le: "lo \<le> hi" by simp
  have d: "d = nat (hi + 1 - (lo + 1))" using Suc.hyps(2) by simp
  have "reread_lines new (span_lines old (lo + 1) hi) = Inr (span_lines new (lo + 1) hi)"
    using Suc.hyps(1)[OF d _ Suc.prems(2)] Suc.prems(1) by simp
  moreover have "py_index new (lo + 1 - 1) = Inr (new ! nat lo)"
    using Suc.prems le by (simp add: py_index_nat)
  ultimately show ?case by (simp add: span_lines_Cons[OF le])
qed

lemma check_outer_width_clean:
  assumes "box_lines b = first # rest"
    and "\<forall>e \<in> set (box_lines b). line_width (snd e) = expected_width (snd first)"
  shows "check_outer_width b = Inr []"
proof -
  have "concat (map (\<lambda>(ln, body).
            if line_width body \<noteq> expected_width (snd first)
            then [(ln, line_width body, expected_width (snd first), body)] else [])
          (box_lines b)) = []"
    using assms(2) by (auto simp: concat_eq_Nil_conv)
  then show ?thesis using assms(1) by (simp add: check_outer_width_def Let_def)
qed


lemma span_lines_member:
  "e \<in> set (span_lines lines lo hi) \<longleftrightarrow> (\<exists>j. lo \<le> j \<and> j \<le> hi \<and> e = (j + 1, lines ! nat j))"
  by (auto simp: span_lines_def)

lemma wide_scan: "find_boxes wide_diagram 1 3 = Inr [wide_box]"
  by (simp add: short_defs scan_eval py_prims)

lemma wide_fix: "fix_outer_width wide_diagram wide_box None = (wide_diagram, Inr 1)"
  by (simp add: short_defs width_eval py_prims glyph_sets)

lemma wide_reread: "reread_box wide_diagram wide_box = Inr wide_box"
  by (simp add: short_defs reread_box_def py_prims)

lemma wide_check: "check_outer_width wide_box = Inr [(2, 6, 4, wide_mid)]"
  by (simp add: short_defs width_eval py_prims glyph_sets)

lemma wide_pattern:
  "border_pattern short_top \<and> border_pattern wide_mid \<and> border_pattern short_bot"
  by (simp add: border_pattern_def short_defs py_prims glyph_sets)

text \<open>
  Claim C1 as stated: for every box all of whose lines match the border pattern, the width
  check of the box re-read after the width fix is empty. It is not: in \<open>wide_diagram\<close>
  every line matches the pattern, the middle line holds four letters between its borders
  where the box has room for two, the fixer writes the line back as it was (it trims
  blanks only), and the check still reports it with width 6 against 4.
\<close>

theorem fix_width_leaves_long_line:
  "find_boxes wide_diagram 1 3 = Inr [wide_box]
   \<and> border_pattern short_top \<and> border_pattern wide_mid \<and> border_pattern short_bot
   \<and> fix_outer_width wide_diagram wide_box None = (wide_diagram, Inr 1)
   \<and> reread_box wide_diagram wide_box = Inr wide_box
   \<and> check_outer_width wide_box = Inr [(2, 6, 4, wide_mid)]"
  using wide_scan wide_pattern wide_fix wide_reread wide_check by simp

text \<open>
  Claim C1, amended: for every box scanned from a range that starts at line 1 or later, all
  of whose lines match the border pattern and fit the box's width (that is, a line longer
  than the box's first line ends its interior with at least as many whitespace characters
  as it is too long): the width fixer returns, and the width check of the box re-read from
  the fixed buffer returns an empty error sequence.
\<close>

theorem fix_then_check_clean:
  assumes range: "1 \<le> start_line"
    and scan: "find_boxes lines start_line end_line = Inr boxes"
    and box: "b \<in> set boxes"
    and shape: "\<forall>e \<in> set (box_lines b).
                  border_pattern (snd e) \<and> fits_width (box_width b) (snd e)"
  shows "\<exists>lines' n b'. fix_outer_width lines b None = (lines', Inr n)
           \<and> reread_box lines' b = Inr b'
           \<and> check_outer_width b' = Inr []"
proof -
  from find_boxes_total[OF range, of lines end_line] scan box
  obtain lo hi where span: "closed_span lines b lo hi" by auto
  define t where "t = box_width b"
  have lo: "0 \<le> lo" and lohi: "lo < hi" and hi: "hi < int (length lines)"
    and content: "box_lines b = span_lines lines lo hi"
    using span by (simp_all add: closed_span_def)
  have good: "border_pattern (lines ! nat j) \<and> fits_width t (lines ! nat j)"
    if "lo \<le> j \<and> j \<le> hi" for j
  proof -
    have "(j + 1, lines ! nat j) \<in> set (box_lines b)"
      unfolding content span_lines_member using that by blast
    then show ?thesis using shape by (auto simp: t_def)
  qed
  from fix_loop_span[where k = lo and hi = hi and cur = lines and orig = lines
      and t = t and n = 0, OF lo hi]
  obtain res n where
    run: "fix_outer_width_loop t (span_lines lines lo hi) lines 0 = (res, Inr n)"
    and len: "length res = length lines"
    and new: "\<forall>j. lo \<le> j \<and> j \<le> hi \<longrightarrow> res ! nat j = rewritten t (lines ! nat j)"
    by auto
  have fixed: "fix_outer_width lines b None = (res, Inr n)"
    using run by (simp add: fix_outer_width_def content t_def)
  have hi': "hi < int (length res)" using hi len by simp
  have reread: "reread_box res b = Inr (b\<lparr>box_lines := span_lines res lo hi\<rparr>)"
    using reread_span[OF lo hi', of lines] by (simp add: reread_box_def content)
  have width: "line_width (res ! nat j) = int t \<and> expected_width (res ! nat j) = int t"
    if j: "lo \<le> j \<and> j \<le> hi" for j
  proof -
    have eq: "res ! nat j = rewritten t (lines ! nat j)" using new j by blast
    have "border_pattern (lines ! nat j)" "fits_width t (lines ! nat j)"
      using good[OF j] by simp_all
    from rewritten_shape[OF this]
    have "length (res ! nat j) = t" "res ! nat j \<noteq> []" "last (res ! nat j) \<in> RIGHT_BORDER"
      unfolding eq by simp_all
    then show ?thesis using closed_line_width[of "res ! nat j"] by simp
  qed
  let ?b' = "b\<lparr>box_lines := span_lines res lo hi\<rparr>"
  have first: "box_lines ?b' = (lo + 1, res ! nat lo) # span_lines res (lo + 1) hi"
    using lohi by (simp add: span_lines_Cons)
  have "\<forall>e \<in> set (box_lines ?b'). line_width (snd e) = expected_width (snd (lo + 1, res ! nat lo))"
  proof
    fix e assume "e \<in> set (box_lines ?b')"
    then obtain j where j: "lo \<le> j \<and> j \<le> hi" and e: "e = (j + 1, res ! nat j)"
      by (auto simp: span_lines_member)
    have "lo \<le> lo \<and> lo \<le> hi" using lohi by simp
    then show "line_width (snd e) = expected_width (snd (lo + 1, res ! nat lo))"
      using width[OF j] width[of lo] e by simp
  qed
  with first have "check_outer_width ?b' = Inr []" by (rule check_outer_width_clean)
  then show ?thesis using fixed reread by blast
qed

lemma roomy_scan: "find_boxes roomy_diagram 1 3 = Inr [roomy_box]"
  by (simp add: roomy_defs scan_eval py_prims)

lemma roomy_shape:
  "\<forall>e \<in> set (box_lines roomy_box).
     border_pattern (snd e) \<and> fits_width (box_width roomy_box) (snd e)"
  by (simp add: roomy_defs border_pattern_def fits_width_def interior_slack_def py_prims
      glyph_sets)

theorem fix_then_check_clean_witness:
  "length roomy_mid = 6 \<and> box_width roomy_box = 4
   \<and> (\<exists>lines' n b'. fix_outer_width roomy_diagram roomy_box None = (lines', Inr n)
         \<and> reread_box lines' roomy_box = Inr b'
         \<and> check_outer_width b' = Inr [])"
proof -
  have "roomy_box \<in> set [roomy_box]" by simp
  from fix_then_check_clean[OF _ roomy_scan this roomy_shape]
  show ?thesis by (simp add: roomy_defs)
qed

section \<open>Where the floating-vertical analysis looks\<close>

lemma search_rows_total:
  "\<forall>r \<in> set rs. 0 \<le> r \<and> r < int (length lines) \<Longrightarrow> \<exists>a. search_rows S lines rs col = Inr a"
  by (induction rs) (auto simp: py_index_nat split: option.splits)

lemma neighbour_rows_valid:
  "\<forall>r \<in> set (neighbour_rows lines i). 0 \<le> r \<and> r < int (length lines)"
  by (auto simp: neighbour_rows_def)

lemma get_closest_anchor_total:
  assumes "0 \<le> i" and "i < int (length lines)"
  shows "\<exists>a. get_closest_anchor lines i col = Inr a"
proof -
  obtain u where u: "search_rows JUNCTIONS lines (up_rows i) col = Inr u"
    using search_rows_total[OF up_rows_valid[OF assms]] by blast
  obtain d where d: "search_rows JUNCTIONS lines (down_rows lines i) col = Inr d"
    using search_rows_total[OF down_rows_valid[OF assms(1)]] by blast
  obtain f where f: "search_rows FLOATING lines (neighbour_rows lines i) col = Inr f"
    using search_rows_total[OF neighbour_rows_valid] by blast
  show ?thesis
    by (cases u; cases d) (simp_all add: get_closest_anchor_def u d f)
qed

lemma floating_line_errors_total:
  assumes "0 \<le> i" and "i < int (length lines)"
  shows "\<exists>errs. floating_line_errors lines i line ps = Inr errs"
proof (induction ps)
  case Nil
  then show ?case by simp
next
  case (Cons p ps)
  obtain c ch where p: "p = (c, ch)" by (cases p)
  obtain a where a: "get_closest_anchor lines i c = Inr a"
    using get_closest_anchor_total[OF assms] by blast
  from Cons obtain rest where rest: "floating_line_errors lines i line ps = Inr rest" by blast
  show ?case unfolding p
    by (cases a) (auto simp: a rest)
qed

lemma check_floating_rows_total:
  "\<forall>r \<in> set rows. 0 \<le> r \<and> r < int (length lines)
   \<Longrightarrow> \<exists>errs. check_floating_rows lines boxed rows = Inr errs"
proof (induction rows)
  case Nil
  then show ?case by simp
next
  case (Cons i rows)
  then have i: "0 \<le> i" "i < int (length lines)" by simp_all
  obtain these where these:
    "floating_line_errors lines i (lines ! nat i) (enumerate 0 (lines ! nat i)) = Inr these"
    using floating_line_errors_total[OF i] by blast
  from Cons obtain rest where "check_floating_rows lines boxed rows = Inr rest" by auto
  then show ?case using these i by (simp add: py_index_nat)
qed

lemma floating_line_errors_iff:
  "floating_line_errors lines i line ps = Inr errs
   \<Longrightarrow> err \<in> set errs
       \<longleftrightarrow> (\<exists>c ch. (c, ch) \<in> set ps \<and> ch \<in> FLOATING \<and> reported lines i line c err)"
proof (induction ps arbitrary: errs)
  case Nil
  then show ?case by simp
next
  case (Cons p ps)
  obtain c ch where p: "p = (c, ch)" by (cases p)
  show ?case
  proof (cases "ch \<in> FLOATING")
    case False
    then have "floating_line_errors lines i line ps = Inr errs" using Cons.prems p by simp
    from Cons.IH[OF this] show ?thesis using False p by auto
  next
    case True
    from Cons.prems p True obtain anchor rest where
      anchor: "get_closest_anchor lines i c = Inr anchor"
      and rest: "floating_line_errors lines i line ps = Inr rest"
      and errs: "errs = (case anchor of
                    None \<Rightarrow> rest
                  | Some (anchor_r, anchor_c) \<Rightarrow>
                      if anchor_c \<noteq> c then (i + 1, c, anchor_c, anchor_r + 1, line) # rest
                      else rest)"
      by (auto split: sum.splits option.splits if_splits)
    have head: "err \<in> set errs \<longleftrightarrow> reported lines i line c err \<or> err \<in> set rest"
      unfolding errs reported_def anchor
      by (cases anchor) (auto split: if_splits)
    have "(\<exists>c' ch'. (c', ch') \<in> set (p # ps) \<and> ch' \<in> FLOATING \<and> reported lines i line c' err)
          \<longleftrightarrow> reported lines i line c err
              \<or> (\<exists>c' ch'. (c', ch') \<in> set ps \<and> ch' \<in> FLOATING \<and> reported lines i line c' err)"
      using True p by auto
    then show ?thesis using head Cons.IH[OF rest] by simp
  qed
qed

lemma enumerate_member:
  "(c, ch) \<in> set (enumerate 0 line) \<longleftrightarrow> c < length line \<and> ch = line ! c"
  by (auto simp: in_set_enumerate_eq)

lemma check_floating_rows_iff:
  "check_floating_rows lines boxed rows = Inr errs
   \<Longrightarrow> err \<in> set errs
       \<longleftrightarrow> (\<exists>i line c. i \<in> set rows \<and> i \<notin> set boxed \<and> py_index lines i = Inr line
              \<and> c < length line \<and> line ! c \<in> FLOATING \<and> reported lines i line c err)"
proof (induction rows arbitrary: errs)
  case Nil
  then show ?case by simp
next
  case (Cons i rows)
  let ?Q = "\<lambda>r. \<exists>line c. r \<notin> set boxed \<and> py_index lines r = Inr line
              \<and> c < length line \<and> line ! c \<in> FLOATING \<and> reported lines r line c err"
  have unfold: "(\<exists>r line c. r \<in> set (i # rows) \<and> r \<notin> set boxed \<and> py_index lines r = Inr line
              \<and> c < length line \<and> line ! c \<in> FLOATING \<and> reported lines r line c err)
        \<longleftrightarrow> ?Q i \<or> (\<exists>r line c. r \<in> set rows \<and> r \<notin> set boxed \<and> py_index lines r = Inr line
              \<and> c < length line \<and> line ! c \<in> FLOATING \<and> reported lines r line c err)"
    by (simp only: list.set insert_iff) blast
  show ?case
  proof (cases "i \<in> set boxed")
    case True
    then have "check_floating_rows lines boxed rows = Inr errs" using Cons.prems by simp
    from Cons.IH[OF this] show ?thesis unfolding unfold using True by simp
  next
    case False
    from Cons.prems False obtain line these rest where
      line: "py_index lines i = Inr line"
      and these: "floating_line_errors lines i line (enumerate 0 line) = Inr these"
      and rest: "check_floating_rows lines boxed rows = Inr rest"
      and errs: "errs = these @ rest"
      by (auto split: sum.splits)
    have A: "err \<in> set these \<longleftrightarrow> ?Q i"
      unfolding floating_line_errors_iff[OF these] using False line
      by (auto simp: enumerate_member)
    have B: "err \<in> set rest
             \<longleftrightarrow> (\<exists>r line c. r \<in> set rows \<and> r \<notin> set boxed \<and> py_index lines r = Inr line
                    \<and> c < length line \<and> line ! c \<in> FLOATING \<and> reported lines r line c err)"
      by (rule Cons.IH[OF rest])
    have C: "err \<in> set errs \<longleftrightarrow> err \<in> set these \<or> err \<in> set rest" by (simp add: errs)
    show ?thesis unfolding unfold C A B by (rule refl)
  qed
qed


lemma anchor_in_up_window:
  assumes i: "0 \<le> i" "i < int (length lines)" and hit: "up_hit lines i col r c"
  shows "\<exists>r0 c0. get_closest_anchor lines i col = Inr (Some (r0, c0))
           \<and> up_hit lines i col r0 c0
           \<and> (\<forall>r' c'. up_hit lines i col r' c' \<longrightarrow> r' < r0 \<or> (r' = r0 \<and> c0 \<le> c'))"
proof -
  have "r \<in> set (up_rows i)" "window_hit JUNCTIONS lines col r c"
    using hit up_hit_rows[OF i(1)] by blast+
  from search_rows_first[OF up_rows_valid[OF i] up_rows_sorted this]
  obtain r0 c0 where res: "search_rows JUNCTIONS lines (up_rows i) col = Inr (Some (r0, c0))"
    and r0: "r0 \<in> set (up_rows i)" "window_hit JUNCTIONS lines col r0 c0"
    and best: "\<forall>r' c'. r' \<in> set (up_rows i) \<and> window_hit JUNCTIONS lines col r' c'
                 \<longrightarrow> r0 > r' \<or> (r' = r0 \<and> c0 \<le> c')"
    by blast
  have "get_closest_anchor lines i col = Inr (Some (r0, c0))"
    by (simp add: get_closest_anchor_def res)
  moreover have "up_hit lines i col r0 c0" using r0 up_hit_rows[OF i(1)] by blast
  moreover have "\<forall>r' c'. up_hit lines i col r' c' \<longrightarrow> r' < r0 \<or> (r' = r0 \<and> c0 \<le> c')"
    using best up_hit_rows[OF i(1)] by blast
  ultimately show ?thesis by blast
qed

lemma anchor_in_down_window:
  assumes i: "0 \<le> i" "i < int (length lines)"
    and none: "\<forall>r' c'. \<not> up_hit lines i col r' c'" and hit: "down_hit lines i col r c"
  shows "\<exists>r0 c0. get_closest_anchor lines i col = Inr (Some (r0, c0))
           \<and> down_hit lines i col r0 c0
           \<and> (\<forall>r' c'. down_hit lines i col r' c' \<longrightarrow> r0 < r' \<or> (r' = r0 \<and> c0 \<le> c'))"
proof -
  have "r \<in> set (down_rows lines i)" "window_hit JUNCTIONS lines col r c"
    using hit down_hit_rows by blast+
  from search_rows_first[OF down_rows_valid[OF i(1)] down_rows_sorted this]
  obtain r0 c0
    where res: "search_rows JUNCTIONS lines (down_rows lines i) col = Inr (Some (r0, c0))"
    and r0: "r0 \<in> set (down_rows lines i)" "window_hit JUNCTIONS lines col r0 c0"
    and best: "\<forall>r' c'. r' \<in> set (down_rows lines i) \<and> window_hit JUNCTIONS lines col r' c'
                 \<longrightarrow> r0 < r' \<or> (r' = r0 \<and> c0 \<le> c')"
    by blast
  have "get_closest_anchor lines i col = Inr (Some (r0, c0))"
    by (simp add: get_closest_anchor_def search_up_none[OF i none] res)
  moreover have "down_hit lines i col r0 c0" using r0 down_hit_rows by blast
  moreover have "\<forall>r' c'. down_hit lines i col r' c' \<longrightarrow> r0 < r' \<or> (r' = r0 \<and> c0 \<le> c')"
    using best down_hit_rows by blast
  ultimately show ?thesis by blast
qed

lemma range_rows_valid:
  "1 \<le> start_line
   \<Longrightarrow> \<forall>r \<in> set (py_range (start_line - 1) (min end_line (int (length lines)))).
         0 \<le> r \<and> r < int (length lines)"
  by (auto simp: py_range_def)

lemma chars_to_move_errors:
  "(case (floating_line_errors lines i line ps, chars_to_move lines i ps) of
      (Inl e, Inl e') \<Rightarrow> e = e'
    | (Inr errs, Inr moves) \<Rightarrow> (errs = []) = (moves = [])
    | _ \<Rightarrow> False)"
proof (induction ps)
  case Nil
  then show ?case by simp
next
  case (Cons p ps)
  obtain c ch where p: "p = (c, ch)" by (cases p)
  show ?case using Cons unfolding p
    by (auto split: sum.splits option.splits if_splits)
qed

lemma chars_to_move_iff:
  "chars_to_move lines i ps = Inr moves
   \<Longrightarrow> (c, ch, a) \<in> set moves
       \<longleftrightarrow> ((c, ch) \<in> set ps \<and> ch \<in> FLOATING
            \<and> (\<exists>anchor_r. get_closest_anchor lines i c = Inr (Some (anchor_r, a))) \<and> a \<noteq> c)"
proof (induction ps arbitrary: moves)
  case Nil
  then show ?case by simp
next
  case (Cons p ps)
  obtain c' ch' where p: "p = (c', ch')" by (cases p)
  show ?case using Cons.prems Cons.IH unfolding p
    by (auto split: sum.splits option.splits if_splits)
qed

lemma realign_floating_none:
  "realign_floating lines i line = Inr None
   \<longleftrightarrow> floating_line_errors lines i line (enumerate 0 line) = Inr []"
  using chars_to_move_errors[of lines i line "enumerate 0 line"]
  by (auto simp: realign_floating_def Let_def split: sum.splits if_splits)

lemma fix_floating_rows_count:
  "fix_floating_rows boxed rows lines n = (out, Inr m) \<Longrightarrow> n \<le> m"
proof (induction rows arbitrary: lines n)
  case Nil
  then show ?case by simp
next
  case (Cons i rows)
  show ?case using Cons.prems Cons.IH
    by (fastforce split: if_splits sum.splits option.splits)
qed

lemma fix_floating_rows_clean:
  "check_floating_rows lines boxed rows = Inr []
   \<longleftrightarrow> snd (fix_floating_rows boxed rows lines n) = Inr n"
proof (induction rows)
  case Nil
  then show ?case by simp
next
  case (Cons i rows)
  show ?case
  proof (cases "i \<in> set boxed")
    case True
    then show ?thesis using Cons by simp
  next
    case False
    show ?thesis
    proof (cases "py_index lines i")
      case (Inl e)
      then show ?thesis using False by simp
    next
      case (Inr line)
      show ?thesis
      proof (cases "realign_floating lines i line")
        case (Inl e)
        then have "floating_line_errors lines i line (enumerate 0 line) \<noteq> Inr []"
          using realign_floating_none[of lines i line] by simp
        then show ?thesis using False Inr Inl by (auto split: sum.splits)
      next
        case res: (Inr res)
        show ?thesis
        proof (cases res)
          case None
          then have "floating_line_errors lines i line (enumerate 0 line) = Inr []"
            using realign_floating_none[of lines i line] res by simp
          then show ?thesis using False Inr res None Cons by (auto split: sum.splits)
        next
          case (Some rebuilt)
          then have no: "floating_line_errors lines i line (enumerate 0 line) \<noteq> Inr []"
            using realign_floating_none[of lines i line] res by simp
          have "snd (fix_floating_rows boxed (i # rows) lines n) \<noteq> Inr n"
          proof (cases "py_store lines i rebuilt")
            case (Inl e)
            then show ?thesis using False Inr res Some by simp
          next
            case stored: (Inr lines')
            show ?thesis
            proof
              assume eq: "snd (fix_floating_rows boxed (i # rows) lines n) = Inr n"
              then have "snd (fix_floating_rows boxed rows lines' (n + 1)) = Inr n"
                using False Inr res Some stored by simp
              then have "fix_floating_rows boxed rows lines' (n + 1)
                           = (fst (fix_floating_rows boxed rows lines' (n + 1)), Inr n)"
                by (metis prod.collapse)
              from fix_floating_rows_count[OF this] show False by simp
            qed
          qed
          then show ?thesis using no False Inr by (auto split: sum.splits)
        qed
      qed
    qed
  qed
qed

lemma fix_floating_rows_unchanged:
  "snd (fix_floating_rows boxed rows lines n) = Inr n
   \<Longrightarrow> fst (fix_floating_rows boxed rows lines n) = lines"
proof (induction rows)
  case Nil
  then show ?case by simp
next
  case (Cons i rows)
  show ?case
  proof (cases "i \<in> set boxed")
    case True
    then show ?thesis using Cons by simp
  next
    case False
    have none: "check_floating_rows lines boxed (i # rows) = Inr []"
      using fix_floating_rows_clean[of lines boxed "i # rows" n] Cons.prems by simp
    then obtain line where line: "py_index lines i = Inr line"
      using False by (auto split: sum.splits)
    from none line False
    have here_none: "floating_line_errors lines i line (enumerate 0 line) = Inr []"
      and rest: "check_floating_rows lines boxed rows = Inr []"
      by (auto split: sum.splits)
    have "realign_floating lines i line = Inr None"
      using realign_floating_none here_none by blast
    moreover have "snd (fix_floating_rows boxed rows lines n) = Inr n"
      using fix_floating_rows_clean[of lines boxed rows n] rest by simp
    ultimately show ?thesis using False line Cons.IH by simp
  qed
qed

lemma aligned_check: "check_floating_verticals aligned_diagram [] 1 2 = Inr []"
  by (simp add: aligned_diagram_def far_tee_def float_eval py_prims glyph_sets)

lemma aligned_fix: "fix_floating_verticals aligned_diagram [] 1 2 = (aligned_diagram, Inr 0)"
  by (simp add: aligned_diagram_def far_tee_def float_eval py_prims glyph_sets)

lemma entry_moves: "chars_to_move entry_diagram 0 (enumerate 0 stem_bar) = Inr [(4, VERT, 3)]"
  by (simp add: entry_defs float_eval py_prims glyph_sets)

lemma entry_scan: "find_boxes entry_diagram 1 4 = Inr [entry_box]"
  by (simp add: entry_defs scan_eval py_prims)

lemma entry_scan_first: "find_boxes entry_diagram 1 1 = Inr []"
  by (simp add: entry_defs scan_eval py_prims)

lemma entry_anchor: "get_closest_anchor entry_diagram 0 4 = Inr (Some (1, 3))"
  by (simp add: entry_defs float_eval py_prims glyph_sets)

lemma entry_check:
  "check_floating_verticals entry_diagram [entry_box] 1 4 = Inr [(1, 4, 3, 2, stem_bar)]"
  by (simp add: entry_defs float_eval py_prims glyph_sets)

lemma entry_check_first:
  "check_floating_verticals entry_diagram [] 1 1 = Inr [(1, 4, 3, 2, stem_bar)]"
  by (simp add: entry_defs float_eval py_prims glyph_sets)

lemma entry_fix:
  "fix_floating_verticals entry_diagram [entry_box] 1 4
     = ([[SPACE, SPACE, SPACE, VERT], entry_top, stem_mid, entry_bot], Inr 1)"
  by (simp add: entry_defs float_eval py_prims glyph_sets)

lemma far_anchor: "get_closest_anchor far_diagram 14 0 = Inr (Some (0, 3))"
  by (simp add: far_diagram_def far_tee_def float_eval py_prims glyph_sets)

lemma far_check: "check_floating_verticals far_diagram [] 15 15 = Inr [(15, 0, 3, 1, [VERT])]"
  by (simp add: far_diagram_def far_tee_def float_eval py_prims glyph_sets)

lemma stem_anchor: "get_closest_anchor stem_diagram 3 4 = Inr (Some (2, 3))"
  by (simp add: stem_defs float_eval py_prims glyph_sets)

lemma stem_check:
  "check_floating_verticals stem_diagram [stem_box] 1 5
     = Inr [(4, 4, 3, 3, stem_bar), (5, 4, 3, 3, stem_arrow)]"
  by (simp add: stem_defs float_eval py_prims glyph_sets)

lemma stem_fix:
  "fix_floating_verticals stem_diagram [stem_box] 1 5
     = ([stem_top, stem_mid, stem_bot, [SPACE, SPACE, SPACE, VERT],
         [SPACE, SPACE, SPACE, ARROW_DOWN]], Inr 2)"
  by (simp add: stem_defs float_eval py_prims glyph_sets)

lemma stem_scan_line4: "find_boxes stem_diagram 4 4 = Inr []"
  by (simp add: stem_defs scan_eval py_prims)

lemma stem_check_line4:
  "check_floating_verticals stem_diagram [] 4 4 = Inr [(4, 4, 3, 3, stem_bar)]"
  by (simp add: stem_defs float_eval py_prims glyph_sets)

lemma stem_fix_line4:
  "fix_floating_verticals stem_diagram [] 4 4
     = ([stem_top, stem_mid, stem_bot, [SPACE, SPACE, SPACE, VERT], stem_arrow], Inr 1)"
  by (simp add: stem_defs float_eval py_prims glyph_sets)


text \<open>
  Claim C10: the floating check and the floating fixer look only at the bars and arrow heads
  of rows of the requested range that are outside every box, but the anchor of such a glyph
  is searched in the whole buffer. For a range that starts at line 1 or later the check
  returns. A record is in its result exactly when a row of the range outside every box has a
  floating glyph at a column for which \<open>get_closest_anchor\<close>, run on the whole buffer,
  returns an anchor at another column; the record names the row and the column of that
  anchor. The glyphs the fixer decides to move on a row, and their target columns, are
  given by the same search, and the fixer returns the buffer unchanged with the count 0
  exactly when the check returns no record. The search itself is not restricted by the
  boxes or by the range: whenever a junction stands in the fourteen rows above the glyph,
  at most three columns to its left or right, the search returns the nearest such row and
  its leftmost such column; when none stands above and one stands in the fourteen rows
  below, it returns the nearest row below and its leftmost such column; so a glyph of a
  checked row with a junction in either window is reported unless the anchor found is in
  its own column. A line that is no row of the range outside the boxes is left as it was by
  the fixer.

  In \<open>stem_diagram\<close> the bar of line 4 and the arrow head of line 5 are anchored on the tee
  of line 3, a line of the box above them, and with the range 4 to 4 the bar is still
  anchored on line 3, outside the range. In \<open>entry_diagram\<close> the bar of line 1 is anchored
  on the tee of line 2, a line of the box below it, and with the range 1 to 1 that line is
  outside the range as well. In \<open>far_diagram\<close> the anchor stands fourteen rows above and
  three columns to the right of the bar. In \<open>aligned_diagram\<close> the bar stands under its
  tee: nothing is reported and nothing is rewritten.
\<close>

theorem anchors_searched_in_whole_buffer:
  "(1 \<le> start_line
      \<longrightarrow> (\<exists>found. check_floating_verticals lines boxes start_line end_line = Inr found))
   \<and> (check_floating_verticals lines boxes start_line end_line = Inr errs
      \<longrightarrow> (err \<in> set errs
           \<longleftrightarrow> (\<exists>i line c.
                  i \<in> set (py_range (start_line - 1) (min end_line (int (length lines))))
                  \<and> i \<notin> set (in_box_indices boxes)
                  \<and> py_index lines i = Inr line \<and> c < length line \<and> line ! c \<in> FLOATING
                  \<and> (\<exists>anchor_r anchor_c.
                        get_closest_anchor lines i c = Inr (Some (anchor_r, anchor_c))
                        \<and> anchor_c \<noteq> c
                        \<and> err = (i + 1, c, anchor_c, anchor_r + 1, line)))))
   \<and> (0 \<le> k \<and> k < int (length lines) \<and> up_hit lines k col hr hc
      \<longrightarrow> (\<exists>r0 c0. get_closest_anchor lines k col = Inr (Some (r0, c0))
             \<and> up_hit lines k col r0 c0
             \<and> (\<forall>r' c'. up_hit lines k col r' c' \<longrightarrow> r' < r0 \<or> (r' = r0 \<and> c0 \<le> c'))))
   \<and> (0 \<le> k \<and> k < int (length lines) \<and> (\<forall>r' c'. \<not> up_hit lines k col r' c')
        \<and> down_hit lines k col hr hc
      \<longrightarrow> (\<exists>r0 c0. get_closest_anchor lines k col = Inr (Some (r0, c0))
             \<and> down_hit lines k col r0 c0
             \<and> (\<forall>r' c'. down_hit lines k col r' c' \<longrightarrow> r0 < r' \<or> (r' = r0 \<and> c0 \<le> c'))))
   \<and> (check_floating_verticals lines boxes start_line end_line = Inr errs
        \<and> k \<in> set (py_range (start_line - 1) (min end_line (int (length lines))))
        \<and> k \<notin> set (in_box_indices boxes)
        \<and> 0 \<le> k \<and> k < int (length lines)
        \<and> col < length (lines ! nat k) \<and> lines ! nat k ! col \<in> FLOATING
        \<and> (up_hit lines k col hr hc \<or> down_hit lines k col hr hc)
      \<longrightarrow> (\<exists>r0 c0. (up_hit lines k col r0 c0 \<or> down_hit lines k col r0 c0)
             \<and> get_closest_anchor lines k col = Inr (Some (r0, c0))
             \<and> (c0 = col \<or> (k + 1, col, c0, r0 + 1, lines ! nat k) \<in> set errs)))
   \<and> (Some j \<notin> py_norm lines
                  ` (set (py_range (start_line - 1) (min end_line (int (length lines))))
                     - set (in_box_indices boxes))
      \<longrightarrow> fst (fix_floating_verticals lines boxes start_line end_line) ! j = lines ! j)
   \<and> (chars_to_move lines k (enumerate 0 row_text) = Inr moves
      \<longrightarrow> ((c, ch, target) \<in> set moves
           \<longleftrightarrow> c < length row_text \<and> ch = row_text ! c \<and> ch \<in> FLOATING
               \<and> (\<exists>anchor_r. get_closest_anchor lines k c = Inr (Some (anchor_r, target)))
               \<and> target \<noteq> c))
   \<and> (check_floating_verticals lines boxes start_line end_line = Inr []
      \<longleftrightarrow> fix_floating_verticals lines boxes start_line end_line = (lines, Inr 0))
   \<and> (find_boxes stem_diagram 1 5 = Inr [stem_box]
      \<and> in_box_indices [stem_box] = [0, 1, 2]
      \<and> get_closest_anchor stem_diagram 3 4 = Inr (Some (2, 3))
      \<and> check_floating_verticals stem_diagram [stem_box] 1 5
          = Inr [(4, 4, 3, 3, stem_bar), (5, 4, 3, 3, stem_arrow)]
      \<and> fix_floating_verticals stem_diagram [stem_box] 1 5
          = ([stem_top, stem_mid, stem_bot, [SPACE, SPACE, SPACE, VERT],
              [SPACE, SPACE, SPACE, ARROW_DOWN]], Inr 2))
   \<and> (find_boxes stem_diagram 4 4 = Inr []
      \<and> check_floating_verticals stem_diagram [] 4 4 = Inr [(4, 4, 3, 3, stem_bar)]
      \<and> fix_floating_verticals stem_diagram [] 4 4
          = ([stem_top, stem_mid, stem_bot, [SPACE, SPACE, SPACE, VERT], stem_arrow], Inr 1))
   \<and> (find_boxes entry_diagram 1 4 = Inr [entry_box]
      \<and> in_box_indices [entry_box] = [1, 2, 3]
      \<and> get_closest_anchor entry_diagram 0 4 = Inr (Some (1, 3))
      \<and> check_floating_verticals entry_diagram [entry_box] 1 4 = Inr [(1, 4, 3, 2, stem_bar)]
      \<and> fix_floating_verticals entry_diagram [entry_box] 1 4
          = ([[SPACE, SPACE, SPACE, VERT], entry_top, stem_mid, entry_bot], Inr 1))
   \<and> (find_boxes entry_diagram 1 1 = Inr []
      \<and> check_floating_verticals entry_diagram [] 1 1 = Inr [(1, 4, 3, 2, stem_bar)])
   \<and> (get_closest_anchor far_diagram 14 0 = Inr (Some (0, 3))
      \<and> check_floating_verticals far_diagram [] 15 15 = Inr [(15, 0, 3, 1, [VERT])])
   \<and> (check_floating_verticals aligned_diagram [] 1 2 = Inr []
      \<and> fix_floating_verticals aligned_diagram [] 1 2 = (aligned_diagram, Inr 0))"
proof -
  let ?rows = "py_range (start_line - 1) (min end_line (int (length lines)))"
  let ?boxed = "in_box_indices boxes"
  have total: "1 \<le> start_line
      \<longrightarrow> (\<exists>found. check_floating_verticals lines boxes start_line end_line = Inr found)"
    unfolding check_floating_verticals_def
    using check_floating_rows_total[OF range_rows_valid] by blast
  have link: "err \<in> set errs
           \<longleftrightarrow> (\<exists>i line c. i \<in> set ?rows \<and> i \<notin> set ?boxed
                  \<and> py_index lines i = Inr line \<and> c < length line \<and> line ! c \<in> FLOATING
                  \<and> (\<exists>anchor_r anchor_c.
                        get_closest_anchor lines i c = Inr (Some (anchor_r, anchor_c))
                        \<and> anchor_c \<noteq> c
                        \<and> err = (i + 1, c, anchor_c, anchor_r + 1, line)))"
    if "check_floating_verticals lines boxes start_line end_line = Inr errs"
    using check_floating_rows_iff[of lines ?boxed ?rows errs err] that
    unfolding check_floating_verticals_def reported_def by simp
  have up: "\<exists>r0 c0. get_closest_anchor lines k col = Inr (Some (r0, c0))
             \<and> up_hit lines k col r0 c0
             \<and> (\<forall>r' c'. up_hit lines k col r' c' \<longrightarrow> r' < r0 \<or> (r' = r0 \<and> c0 \<le> c'))"
    if "0 \<le> k \<and> k < int (length lines) \<and> up_hit lines k col hr hc"
    using that anchor_in_up_window[of k lines col hr hc] by blast
  have down: "\<exists>r0 c0. get_closest_anchor lines k col = Inr (Some (r0, c0))
             \<and> down_hit lines k col r0 c0
             \<and> (\<forall>r' c'. down_hit lines k col r' c' \<longrightarrow> r0 < r' \<or> (r' = r0 \<and> c0 \<le> c'))"
    if "0 \<le> k \<and> k < int (length lines) \<and> (\<forall>r' c'. \<not> up_hit lines k col r' c')
        \<and> down_hit lines k col hr hc"
    using that anchor_in_down_window[of k lines col hr hc] by blast
  have anywhere: "\<exists>r0 c0. (up_hit lines k col r0 c0 \<or> down_hit lines k col r0 c0)
             \<and> get_closest_anchor lines k col = Inr (Some (r0, c0))
             \<and> (c0 = col \<or> (k + 1, col, c0, r0 + 1, lines ! nat k) \<in> set errs)"
    if run: "check_floating_verticals lines boxes start_line end_line = Inr errs"
      and row: "k \<in> set ?rows" "k \<notin> set ?boxed" "0 \<le> k" "k < int (length lines)"
      and glyph: "col < length (lines ! nat k)" "lines ! nat k ! col \<in> FLOATING"
      and hit: "up_hit lines k col hr hc \<or> down_hit lines k col hr hc"
  proof -
    have "\<exists>r0 c0. (up_hit lines k col r0 c0 \<or> down_hit lines k col r0 c0)
            \<and> get_closest_anchor lines k col = Inr (Some (r0, c0))"
    proof (cases "\<exists>r' c'. up_hit lines k col r' c'")
      case True
      then obtain r' c' where "up_hit lines k col r' c'" by blast
      from anchor_in_up_window[OF row(3,4) this] show ?thesis by blast
    next
      case False
      then have "down_hit lines k col hr hc" using hit by blast
      from anchor_in_down_window[OF row(3,4) _ this] False show ?thesis by blast
    qed
    then obtain r0 c0 where r0: "up_hit lines k col r0 c0 \<or> down_hit lines k col r0 c0"
      and anchor: "get_closest_anchor lines k col = Inr (Some (r0, c0))" by blast
    have "(k + 1, col, c0, r0 + 1, lines ! nat k) \<in> set errs" if "c0 \<noteq> col"
    proof -
      have at_k: "py_index lines k = Inr (lines ! nat k)" using row(3,4) by (rule py_index_nat)
      have rep: "reported lines k (lines ! nat k) col (k + 1, col, c0, r0 + 1, lines ! nat k)"
        using anchor that by (simp add: reported_def)
      have rows_run: "check_floating_rows lines ?boxed ?rows = Inr errs"
        using run by (simp add: check_floating_verticals_def)
      show ?thesis
        unfolding check_floating_rows_iff[OF rows_run]
        using row(1,2) at_k glyph rep by blast
    qed
    then show ?thesis using r0 anchor by blast
  qed
  have frame: "Some j \<notin> py_norm lines ` (set ?rows - set ?boxed)
      \<longrightarrow> fst (fix_floating_verticals lines boxes start_line end_line) ! j = lines ! j"
    unfolding fix_floating_verticals_def using fix_floating_rows_frame by blast
  have stem_boxed: "in_box_indices [stem_box] = [0, 1, 2]"
    by (simp add: in_box_indices_def stem_box_def)
  have entry_boxed: "in_box_indices [entry_box] = [1, 2, 3]"
    by (simp add: in_box_indices_def entry_box_def)
  have general: "(1 \<le> start_line
      \<longrightarrow> (\<exists>found. check_floating_verticals lines boxes start_line end_line = Inr found))
   \<and> (check_floating_verticals lines boxes start_line end_line = Inr errs
      \<longrightarrow> (err \<in> set errs
           \<longleftrightarrow> (\<exists>i line c. i \<in> set ?rows \<and> i \<notin> set ?boxed
                  \<and> py_index lines i = Inr line \<and> c < length line \<and> line ! c \<in> FLOATING
                  \<and> (\<exists>anchor_r anchor_c.
                        get_closest_anchor lines i c = Inr (Some (anchor_r, anchor_c))
                        \<and> anchor_c \<noteq> c
                        \<and> err = (i + 1, c, anchor_c, anchor_r + 1, line)))))"
    using total link by blast
  have windows: "(0 \<le> k \<and> k < int (length lines) \<and> up_hit lines k col hr hc
      \<longrightarrow> (\<exists>r0 c0. get_closest_anchor lines k col = Inr (Some (r0, c0))
             \<and> up_hit lines k col r0 c0
             \<and> (\<forall>r' c'. up_hit lines k col r' c' \<longrightarrow> r' < r0 \<or> (r' = r0 \<and> c0 \<le> c'))))
   \<and> (0 \<le> k \<and> k < int (length lines) \<and> (\<forall>r' c'. \<not> up_hit lines k col r' c')
        \<and> down_hit lines k col hr hc
      \<longrightarrow> (\<exists>r0 c0. get_closest_anchor lines k col = Inr (Some (r0, c0))
             \<and> down_hit lines k col r0 c0
             \<and> (\<forall>r' c'. down_hit lines k col r' c' \<longrightarrow> r0 < r' \<or> (r' = r0 \<and> c0 \<le> c'))))"
    using up down by blast
  have reach: "check_floating_verticals lines boxes start_line end_line = Inr errs
        \<and> k \<in> set ?rows \<and> k \<notin> set ?boxed \<and> 0 \<le> k \<and> k < int (length lines)
        \<and> col < length (lines ! nat k) \<and> lines ! nat k ! col \<in> FLOATING
        \<and> (up_hit lines k col hr hc \<or> down_hit lines k col hr hc)
      \<longrightarrow> (\<exists>r0 c0. (up_hit lines k col r0 c0 \<or> down_hit lines k col r0 c0)
             \<and> get_closest_anchor lines k col = Inr (Some (r0, c0))
             \<and> (c0 = col \<or> (k + 1, col, c0, r0 + 1, lines ! nat k) \<in> set errs))"
    using anywhere by blast
  have stem: "find_boxes stem_diagram 1 5 = Inr [stem_box]
      \<and> in_box_indices [stem_box] = [0, 1, 2]
      \<and> get_closest_anchor stem_diagram 3 4 = Inr (Some (2, 3))
      \<and> check_floating_verticals stem_diagram [stem_box] 1 5
          = Inr [(4, 4, 3, 3, stem_bar), (5, 4, 3, 3, stem_arrow)]
      \<and> fix_floating_verticals stem_diagram [stem_box] 1 5
          = ([stem_top, stem_mid, stem_bot, [SPACE, SPACE, SPACE, VERT],
              [SPACE, SPACE, SPACE, ARROW_DOWN]], Inr 2)"
    using stem_scan stem_boxed stem_anchor stem_check stem_fix by simp
  have stem4: "find_boxes stem_diagram 4 4 = Inr []
      \<and> check_floating_verticals stem_diagram [] 4 4 = Inr [(4, 4, 3, 3, stem_bar)]
      \<and> fix_floating_verticals stem_diagram [] 4 4
          = ([stem_top, stem_mid, stem_bot, [SPACE, SPACE, SPACE, VERT], stem_arrow], Inr 1)"
    using stem_scan_line4 stem_check_line4 stem_fix_line4 by simp
  have entry: "find_boxes entry_diagram 1 4 = Inr [entry_box]
      \<and> in_box_indices [entry_box] = [1, 2, 3]
      \<and> get_closest_anchor entry_diagram 0 4 = Inr (Some (1, 3))
      \<and> check_floating_verticals entry_diagram [entry_box] 1 4 = Inr [(1, 4, 3, 2, stem_bar)]
      \<and> fix_floating_verticals entry_diagram [entry_box] 1 4
          = ([[SPACE, SPACE, SPACE, VERT], entry_top, stem_mid, entry_bot], Inr 1)"
    using entry_scan entry_boxed entry_anchor entry_check entry_fix by simp
  have entry1: "find_boxes entry_diagram 1 1 = Inr []
      \<and> check_floating_verticals entry_diagram [] 1 1 = Inr [(1, 4, 3, 2, stem_bar)]"
    using entry_scan_first entry_check_first by simp
  have far: "get_closest_anchor far_diagram 14 0 = Inr (Some (0, 3))
      \<and> check_floating_verticals far_diagram [] 15 15 = Inr [(15, 0, 3, 1, [VERT])]"
    using far_anchor far_check by simp
  have moved: "chars_to_move lines k (enumerate 0 row_text) = Inr moves
      \<longrightarrow> ((c, ch, target) \<in> set moves
           \<longleftrightarrow> c < length row_text \<and> ch = row_text ! c \<and> ch \<in> FLOATING
               \<and> (\<exists>anchor_r. get_closest_anchor lines k c = Inr (Some (anchor_r, target)))
               \<and> target \<noteq> c)"
    using chars_to_move_iff[of lines k "enumerate 0 row_text" moves c ch target]
      enumerate_member[of c ch row_text]
    by blast
  have clean: "check_floating_verticals lines boxes start_line end_line = Inr []
      \<longleftrightarrow> fix_floating_verticals lines boxes start_line end_line = (lines, Inr 0)"
  proof
    assume "check_floating_verticals lines boxes start_line end_line = Inr []"
    then have count: "snd (fix_floating_rows ?boxed ?rows lines 0) = Inr 0"
      unfolding check_floating_verticals_def
      using fix_floating_rows_clean[of lines ?boxed ?rows 0] by simp
    from fix_floating_rows_unchanged[OF count] count
    show "fix_floating_verticals lines boxes start_line end_line = (lines, Inr 0)"
      unfolding fix_floating_verticals_def by (simp add: prod_eq_iff)
  next
    assume "fix_floating_verticals lines boxes start_line end_line = (lines, Inr 0)"
    then have "snd (fix_floating_rows ?boxed ?rows lines 0) = Inr 0"
      unfolding fix_floating_verticals_def by simp
    then show "check_floating_verticals lines boxes start_line end_line = Inr []"
      unfolding check_floating_verticals_def
      using fix_floating_rows_clean[of lines ?boxed ?rows 0] by simp
  qed
  have aligned: "check_floating_verticals aligned_diagram [] 1 2 = Inr []
      \<and> fix_floating_verticals aligned_diagram [] 1 2 = (aligned_diagram, Inr 0)"
    using aligned_check aligned_fix by simp
  from general windows reach frame moved clean stem stem4 entry entry1 far aligned
  show ?thesis by (intro conjI) (elim conjE, assumption)+
qed


theorem anchors_searched_in_whole_buffer_witness:
  "(\<exists>found. check_floating_verticals entry_diagram [entry_box] 1 4 = Inr found)
   \<and> (\<exists>i line c.
         i \<in> set (py_range (1 - 1) (min 4 (int (length entry_diagram))))
         \<and> i \<notin> set (in_box_indices [entry_box])
         \<and> py_index entry_diagram i = Inr line \<and> c < length line \<and> line ! c \<in> FLOATING
         \<and> (\<exists>anchor_r anchor_c.
               get_closest_anchor entry_diagram i c = Inr (Some (anchor_r, anchor_c))
               \<and> anchor_c \<noteq> c
               \<and> (1, 4, 3, 2, stem_bar) = (i + 1, c, anchor_c, anchor_r + 1, line)))
   \<and> (\<exists>r0 c0. get_closest_anchor stem_diagram 3 4 = Inr (Some (r0, c0))
         \<and> up_hit stem_diagram 3 4 r0 c0)
   \<and> (\<exists>r0 c0. get_closest_anchor entry_diagram 0 4 = Inr (Some (r0, c0))
         \<and> down_hit entry_diagram 0 4 r0 c0)
   \<and> (\<exists>r0 c0. (up_hit entry_diagram 0 4 r0 c0 \<or> down_hit entry_diagram 0 4 r0 c0)
         \<and> get_closest_anchor entry_diagram 0 4 = Inr (Some (r0, c0))
         \<and> (c0 = 4 \<or> ((0::int) + 1, 4::nat, c0, r0 + 1, entry_diagram ! nat 0)
                          \<in> set [(1, 4, 3, 2, stem_bar)]))
   \<and> fst (fix_floating_verticals entry_diagram [entry_box] 1 4) ! 1 = entry_diagram ! 1
   \<and> (4 < length stem_bar \<and> VERT = stem_bar ! 4 \<and> VERT \<in> FLOATING
        \<and> (\<exists>anchor_r. get_closest_anchor entry_diagram 0 4 = Inr (Some (anchor_r, 3)))
        \<and> (3::nat) \<noteq> 4)
   \<and> fix_floating_verticals aligned_diagram [] 1 2 = (aligned_diagram, Inr 0)"
proof -
  note entry_inst = anchors_searched_in_whole_buffer[where lines = entry_diagram and boxes = "[entry_box]"
      and start_line = 1 and end_line = 4 and errs = "[(1, 4, 3, 2, stem_bar)]"
      and err = "(1, 4, 3, 2, stem_bar)" and k = 0 and col = 4 and hr = 1 and hc = 3
      and j = 1 and row_text = stem_bar and moves = "[(4, VERT, 3)]" and c = 4
      and ch = VERT and target = 3]
  note aligned_inst = anchors_searched_in_whole_buffer[where lines = aligned_diagram and boxes = "[]"
      and start_line = 1 and end_line = 2]
  note stem_inst = anchors_searched_in_whole_buffer[where lines = stem_diagram and k = 3 and col = 4
      and hr = 2 and hc = 3]
  have run: "check_floating_verticals entry_diagram [entry_box] 1 4 = Inr [(1, 4, 3, 2, stem_bar)]"
    by (simp add: entry_defs float_eval py_prims glyph_sets)
  have up: "up_hit stem_diagram 3 4 2 3"
    by (simp add: up_hit_def window_hit_def stem_defs JUNCTIONS_def)
  have no_up: "\<forall>r' c'. \<not> up_hit entry_diagram 0 4 r' c'"
    by (auto simp: up_hit_def window_hit_def)
  have down: "down_hit entry_diagram 0 4 1 3"
    by (simp add: down_hit_def window_hit_def entry_defs JUNCTIONS_def)
  have row: "(0::int) \<in> set (py_range (1 - 1) (min 4 (int (length entry_diagram))))"
    "(0::int) \<notin> set (in_box_indices [entry_box])"
    by (simp_all add: entry_diagram_def entry_box_def in_box_indices_def py_range_rec)
  have glyph: "4 < length (entry_diagram ! nat 0)" "entry_diagram ! nat 0 ! 4 \<in> FLOATING"
    by (simp_all add: entry_diagram_def stem_bar_def FLOATING_def)
  have len: "(0::int) \<le> 0 \<and> 0 < int (length entry_diagram)"
    "(0::int) \<le> 3 \<and> 3 < int (length stem_diagram)"
    by (simp_all add: entry_diagram_def stem_diagram_def)
  have untouched: "Some 1 \<notin> py_norm entry_diagram
             ` (set (py_range (1 - 1) (min 4 (int (length entry_diagram))))
                - set (in_box_indices [entry_box]))"
    by (auto simp: entry_diagram_def entry_box_def py_norm_def in_box_indices_def py_range_rec)
  note total = entry_inst[THEN conjunct1]
  note link = entry_inst[THEN conjunct2, THEN conjunct1]
  note upward = stem_inst[THEN conjunct2, THEN conjunct2, THEN conjunct1]
  note downward = entry_inst[THEN conjunct2, THEN conjunct2, THEN conjunct2, THEN conjunct1]
  note reach = entry_inst[THEN conjunct2, THEN conjunct2, THEN conjunct2, THEN conjunct2,
      THEN conjunct1]
  note frame = entry_inst[THEN conjunct2, THEN conjunct2, THEN conjunct2, THEN conjunct2,
      THEN conjunct2, THEN conjunct1]
  have c1: "\<exists>found. check_floating_verticals entry_diagram [entry_box] 1 4 = Inr found"
    by (rule total[THEN mp]) simp
  have c2: "\<exists>i line c.
         i \<in> set (py_range (1 - 1) (min 4 (int (length entry_diagram))))
         \<and> i \<notin> set (in_box_indices [entry_box])
         \<and> py_index entry_diagram i = Inr line \<and> c < length line \<and> line ! c \<in> FLOATING
         \<and> (\<exists>anchor_r anchor_c.
               get_closest_anchor entry_diagram i c = Inr (Some (anchor_r, anchor_c))
               \<and> anchor_c \<noteq> c
               \<and> (1, 4, 3, 2, stem_bar) = (i + 1, c, anchor_c, anchor_r + 1, line))"
    by (rule link[THEN mp, OF run, THEN iffD1]) simp
  have up_prem: "(0::int) \<le> 3 \<and> 3 < int (length stem_diagram) \<and> up_hit stem_diagram 3 4 2 3"
    using up len(2) by blast
  have c3: "\<exists>r0 c0. get_closest_anchor stem_diagram 3 4 = Inr (Some (r0, c0))
         \<and> up_hit stem_diagram 3 4 r0 c0"
    using upward[THEN mp, OF up_prem] by blast
  have down_prem: "(0::int) \<le> 0 \<and> 0 < int (length entry_diagram)
         \<and> (\<forall>r' c'. \<not> up_hit entry_diagram 0 4 r' c') \<and> down_hit entry_diagram 0 4 1 3"
    using no_up down len(1) by blast
  have c4: "\<exists>r0 c0. get_closest_anchor entry_diagram 0 4 = Inr (Some (r0, c0))
         \<and> down_hit entry_diagram 0 4 r0 c0"
    using downward[THEN mp, OF down_prem] by blast
  have reach_prem: "check_floating_verticals entry_diagram [entry_box] 1 4
           = Inr [(1, 4, 3, 2, stem_bar)]
         \<and> 0 \<in> set (py_range (1 - 1) (min 4 (int (length entry_diagram))))
         \<and> 0 \<notin> set (in_box_indices [entry_box])
         \<and> (0::int) \<le> 0 \<and> 0 < int (length entry_diagram)
         \<and> 4 < length (entry_diagram ! nat 0) \<and> entry_diagram ! nat 0 ! 4 \<in> FLOATING
         \<and> (up_hit entry_diagram 0 4 1 3 \<or> down_hit entry_diagram 0 4 1 3)"
    using run row glyph len(1) down by blast
  have c5: "\<exists>r0 c0. (up_hit entry_diagram 0 4 r0 c0 \<or> down_hit entry_diagram 0 4 r0 c0)
         \<and> get_closest_anchor entry_diagram 0 4 = Inr (Some (r0, c0))
         \<and> (c0 = 4 \<or> ((0::int) + 1, 4::nat, c0, r0 + 1, entry_diagram ! nat 0)
                          \<in> set [(1, 4, 3, 2, stem_bar)])"
    by (rule reach[THEN mp, OF reach_prem])
  have c6: "fst (fix_floating_verticals entry_diagram [entry_box] 1 4) ! 1 = entry_diagram ! 1"
    by (rule frame[THEN mp, OF untouched])
  note moved = entry_inst[THEN conjunct2, THEN conjunct2, THEN conjunct2, THEN conjunct2,
      THEN conjunct2, THEN conjunct2, THEN conjunct1]
  note clean = aligned_inst[THEN conjunct2, THEN conjunct2, THEN conjunct2, THEN conjunct2,
      THEN conjunct2, THEN conjunct2, THEN conjunct2, THEN conjunct1]
  have moves: "chars_to_move entry_diagram 0 (enumerate 0 stem_bar) = Inr [(4, VERT, 3)]"
    by (simp add: entry_defs float_eval py_prims glyph_sets)
  have no_errors: "check_floating_verticals aligned_diagram [] 1 2 = Inr []"
    by (simp add: aligned_diagram_def far_tee_def float_eval py_prims glyph_sets)
  have c7: "4 < length stem_bar \<and> VERT = stem_bar ! 4 \<and> VERT \<in> FLOATING
        \<and> (\<exists>anchor_r. get_closest_anchor entry_diagram 0 4 = Inr (Some (anchor_r, 3)))
        \<and> (3::nat) \<noteq> 4"
    by (rule moved[THEN mp, OF moves, THEN iffD1]) simp
  have c8: "fix_floating_verticals aligned_diagram [] 1 2 = (aligned_diagram, Inr 0)"
    by (rule clean[THEN iffD1, OF no_errors])
  from c1 c2 c3 c4 c5 c6 c7 c8 show ?thesis by (intro conjI) (elim conjE, assumption)+
qed

end
